theory Spec2Isabelle
  imports Main "HOL-Library.Word"
begin

unbundle bit_operations_syntax

section \<open>Push 3 display tool: data model\<close>

text \<open>
  The development embeds \<^verbatim>\<open>src/tools/display_test.py\<close>. Python byte
  strings (\<^verbatim>\<open>bytes\<close>, \<^verbatim>\<open>bytearray\<close>) are lists of 8-bit words, Python
  integers are \<^typ>\<open>int\<close>, sizes and indices are \<^typ>\<open>nat\<close>. Every exception the
  code can raise is a value of \<open>exn\<close>; a function that can raise returns
  \<open>exn + 'a\<close> with \<open>Inl\<close> for the exception. The \<^verbatim>\<open>print\<close> calls guarded
  by \<^verbatim>\<open>self.debug\<close> write to standard output only and are left out.
\<close>

type_synonym byte = "8 word"
type_synonym bytes = "byte list"

datatype exn =
    RuntimeError string
  | USBError string
  | IOError string
  | ValueError
  | IndexError
  | StructError

subsection \<open>Module constants\<close>

definition VENDOR_ID :: nat where
  "VENDOR_ID = 0x2982"

definition PRODUCT_ID :: nat where
  "PRODUCT_ID = 0x1969"

definition FRAME_HEADER :: bytes where
  "FRAME_HEADER =
     [0xFF, 0xCC, 0xAA, 0x88,
      0x00, 0x00, 0x00, 0x00,
      0x00, 0x00, 0x00, 0x00,
      0x00, 0x00, 0x00, 0x00]"

definition XOR_PATTERN :: bytes where
  "XOR_PATTERN = [0xE7, 0xF3, 0xE7, 0xFF]"

definition DISPLAY_WIDTH :: nat where
  "DISPLAY_WIDTH = 960"

definition DISPLAY_HEIGHT :: nat where
  "DISPLAY_HEIGHT = 160"

definition LINE_PADDING :: nat where
  "LINE_PADDING = 128"

definition CHUNK_SIZE :: nat where
  "CHUNK_SIZE = 16384"

subsection \<open>The USB transport\<close>

text \<open>
  The USB stack is outside the program. It is modelled as the state of the bus:
  whether \<^verbatim>\<open>usb.core.find\<close> finds a Push 3, whether
  \<^verbatim>\<open>set_configuration\<close> raises (and with which message), the list of
  \<^verbatim>\<open>device.write(endpoint, data)\<close> calls made so far, oldest first, and the
  device's answer to a call given the whole history including that call:
  \<open>None\<close> when the write returns, \<open>Some e\<close> when it raises \<open>e\<close>. A call is
  recorded whether or not it raises, so \<open>calls\<close> is the list of writes attempted.
\<close>

record usb_bus =
  attached :: bool
  config_failure :: "string option"
  respond :: "(nat \<times> bytes) list \<Rightarrow> exn option"
  calls :: "(nat \<times> bytes) list"

definition device_write :: "usb_bus \<Rightarrow> nat \<Rightarrow> bytes \<Rightarrow> (exn + unit) \<times> usb_bus" where
  "device_write bus endpoint data =
     (let bus' = bus\<lparr>calls := calls bus @ [(endpoint, data)]\<rparr>
      in case respond bus (calls bus') of
           None \<Rightarrow> (Inr (), bus')
         | Some e \<Rightarrow> (Inl e, bus'))"

subsection \<open>The controller object\<close>

text \<open>
  \<^verbatim>\<open>self.device\<close> is \<open>None\<close> or the handle \<^verbatim>\<open>usb.core.find\<close> returned;
  there is one Push 3 on the modelled bus, so the handle carries no data.
\<close>

record Push3Display =
  device :: "unit option"
  debug :: bool

definition init :: "bool \<Rightarrow> Push3Display" where
  "init dbg = \<lparr>device = None, debug = dbg\<rparr>"

definition connect :: "Push3Display \<Rightarrow> usb_bus \<Rightarrow> (exn + unit) \<times> Push3Display" where
  "connect self bus =
     (let self' = self\<lparr>device := (if attached bus then Some () else None)\<rparr>
      in if device self' = None
         then (Inl (RuntimeError ''Push 3 device not found. Make sure it's connected via USB.''), self')
         else (case config_failure bus of
                 Some msg \<Rightarrow> (Inl (RuntimeError (''Failed to configure device: '' @ msg)), self')
               | None \<Rightarrow> (Inr (), self')))"

section \<open>Pixel codec\<close>

definition rgb888_to_rgb565 :: "int \<Rightarrow> int \<Rightarrow> int \<Rightarrow> int" where
  "rgb888_to_rgb565 r g b =
     (let r5 = (drop_bit 3 r) AND 0x1F;
          g6 = (drop_bit 2 g) AND 0x3F;
          b5 = (drop_bit 3 b) AND 0x1F
      in ((push_bit 11 r5) OR (push_bit 5 g6)) OR b5)"

section \<open>Framebuffer construction\<close>

text \<open>
  A PIL image is its size and its pixel function. \<^verbatim>\<open>getpixel\<close> raises
  \<^verbatim>\<open>IndexError\<close> outside the image. \<^verbatim>\<open>struct.pack('<H', v)\<close> raises
  \<^verbatim>\<open>struct.error\<close> unless \<open>0 \<le> v \<le> 65535\<close> and otherwise gives the low
  byte followed by the high byte.
\<close>

record image =
  img_size :: "nat \<times> nat"
  pixel :: "nat \<times> nat \<Rightarrow> int \<times> int \<times> int"

definition getpixel :: "image \<Rightarrow> nat \<times> nat \<Rightarrow> exn + (int \<times> int \<times> int)" where
  "getpixel img xy =
     (if fst xy < fst (img_size img) \<and> snd xy < snd (img_size img)
      then Inr (pixel img xy) else Inl IndexError)"

definition pack_H :: "int \<Rightarrow> exn + bytes" where
  "pack_H v =
     (if 0 \<le> v \<and> v \<le> 65535
      then Inr [word_of_int (v AND 0xFF), word_of_int (drop_bit 8 v)]
      else Inl StructError)"

text \<open>
  The image library is a parameter: \<^verbatim>\<open>Image.open\<close> returns an image or
  raises, and \<^verbatim>\<open>resize\<close> followed by \<^verbatim>\<open>convert('RGB')\<close> gives an image of
  exactly the requested size whose pixels are whatever the resampling filter computes
  from the source image. PIL decodes a file lazily, so the exception for a damaged file
  may surface only inside \<^verbatim>\<open>resize\<close>; nothing happens between the two calls, and
  the model lets \<open>Image_open\<close> raise it.
\<close>

record pil =
  Image_open :: "string \<Rightarrow> exn + image"
  resample :: "image \<Rightarrow> nat \<times> nat \<Rightarrow> nat \<times> nat \<Rightarrow> int \<times> int \<times> int"

definition resize :: "pil \<Rightarrow> image \<Rightarrow> nat \<times> nat \<Rightarrow> image" where
  "resize lib img sz = \<lparr>img_size = sz, pixel = resample lib img sz\<rparr>"

text \<open>The inner loop over \<^verbatim>\<open>x in range(width)\<close>, extending \<^verbatim>\<open>line_data\<close>.\<close>

fun pixel_loop :: "image \<Rightarrow> nat \<Rightarrow> nat list \<Rightarrow> bytes \<Rightarrow> exn + bytes" where
  "pixel_loop img y [] line_data = Inr line_data"
| "pixel_loop img y (x # xs) line_data =
     (case getpixel img (x, y) of
        Inl e \<Rightarrow> Inl e
      | Inr (r, g, b) \<Rightarrow>
          (case pack_H (rgb888_to_rgb565 r g b) of
             Inl e \<Rightarrow> Inl e
           | Inr packed \<Rightarrow> pixel_loop img y xs (line_data @ packed)))"

text \<open>The outer loop over \<^verbatim>\<open>y in range(height)\<close>, extending \<^verbatim>\<open>framebuffer\<close>.\<close>

fun line_loop :: "image \<Rightarrow> nat \<Rightarrow> nat \<Rightarrow> nat list \<Rightarrow> bytes \<Rightarrow> exn + bytes" where
  "line_loop img width padding [] framebuffer = Inr framebuffer"
| "line_loop img width padding (y # ys) framebuffer =
     (case pixel_loop img y [0..<width] [] of
        Inl e \<Rightarrow> Inl e
      | Inr line_data \<Rightarrow>
          line_loop img width padding ys
            (framebuffer @ (line_data @ replicate padding 0)))"

definition build_framebuffer :: "image \<Rightarrow> nat \<Rightarrow> nat \<Rightarrow> nat \<Rightarrow> exn + bytes" where
  "build_framebuffer img width height padding =
     line_loop img width padding [0..<height] []"

definition prepare_image :: "pil \<Rightarrow> string \<Rightarrow> exn + bytes" where
  "prepare_image lib image_path =
     (case Image_open lib image_path of
        Inl e \<Rightarrow> Inl e
      | Inr img0 \<Rightarrow>
          build_framebuffer (resize lib img0 (DISPLAY_WIDTH, DISPLAY_HEIGHT))
            DISPLAY_WIDTH DISPLAY_HEIGHT LINE_PADDING)"

section \<open>Obfuscation\<close>

text \<open>
  The loop of \<^verbatim>\<open>encrypt_framebuffer\<close> over \<^verbatim>\<open>i in range(len(encrypted))\<close>,
  with the pattern as a parameter; indexing the pattern out of range raises
  \<^verbatim>\<open>IndexError\<close>.
\<close>

function xor_loop :: "bytes \<Rightarrow> bytes \<Rightarrow> nat \<Rightarrow> exn + bytes" where
  "xor_loop pat encrypted i =
     (if i < length encrypted
      then (if i mod 4 < length pat
            then xor_loop pat (encrypted[i := (encrypted ! i) XOR (pat ! (i mod 4))]) (Suc i)
            else Inl IndexError)
      else Inr encrypted)"
  by pat_completeness auto
termination
  by (relation "measure (\<lambda>(pat, encrypted, i). length encrypted - i)") auto

declare xor_loop.simps [simp del]

definition encrypt_framebuffer :: "bytes \<Rightarrow> exn + bytes" where
  "encrypt_framebuffer data = xor_loop XOR_PATTERN data 0"

section \<open>Frame transmission\<close>

text \<open>
  The loop of \<^verbatim>\<open>send_frame\<close> over \<^verbatim>\<open>i in range(0, len(encrypted), CHUNK_SIZE)\<close>
  with the chunk size as a parameter. \<^verbatim>\<open>range\<close> raises \<^verbatim>\<open>ValueError\<close> for
  a zero step. The loop carries \<^verbatim>\<open>bytes_sent\<close>; an exception of
  \<^verbatim>\<open>device.write\<close> leaves the loop at once and propagates as it is.
\<close>

function send_loop :: "nat \<Rightarrow> bytes \<Rightarrow> nat \<Rightarrow> usb_bus \<Rightarrow> nat \<Rightarrow> (exn + nat) \<times> usb_bus" where
  "send_loop chunk_size encrypted i bus bytes_sent =
     (if chunk_size = 0 then (Inl ValueError, bus)
      else if i < length encrypted
      then (let chunk = take chunk_size (drop i encrypted)
            in case device_write bus 1 chunk of
                 (Inl e, bus') \<Rightarrow> (Inl e, bus')
               | (Inr u, bus') \<Rightarrow>
                   send_loop chunk_size encrypted (i + chunk_size) bus'
                     (bytes_sent + length chunk))
      else (Inr bytes_sent, bus))"
  by pat_completeness auto
termination
  by (relation "measure (\<lambda>(chunk_size, encrypted, i, bus, bytes_sent). length encrypted - i)") auto

declare send_loop.simps [simp del]

definition send_frame :: "Push3Display \<Rightarrow> usb_bus \<Rightarrow> bytes \<Rightarrow> (exn + unit) \<times> usb_bus" where
  "send_frame self bus framebuffer =
     (if device self = None
      then (Inl (RuntimeError ''Device not connected. Call connect() first.''), bus)
      else (case device_write bus 1 FRAME_HEADER of
              (Inl e, bus1) \<Rightarrow> (Inl e, bus1)
            | (Inr u, bus1) \<Rightarrow>
                (case encrypt_framebuffer framebuffer of
                   Inl e \<Rightarrow> (Inl e, bus1)
                 | Inr encrypted \<Rightarrow>
                     (case send_loop CHUNK_SIZE encrypted 0 bus1 0 of
                        (Inl e, bus2) \<Rightarrow> (Inl e, bus2)
                      | (Inr bytes_sent, bus2) \<Rightarrow> (Inr (), bus2)))))"

definition display_image :: "pil \<Rightarrow> Push3Display \<Rightarrow> usb_bus \<Rightarrow> string \<Rightarrow> (exn + unit) \<times> usb_bus" where
  "display_image lib self bus image_path =
     (case prepare_image lib image_path of
        Inl e \<Rightarrow> (Inl e, bus)
      | Inr framebuffer \<Rightarrow> send_frame self bus framebuffer)"

section \<open>The same operations on an explicit store\<close>










section \<open>Auxiliary notions for the proofs\<close>

text \<open>
  \<open>slices n xs i\<close> lists the slices \<^verbatim>\<open>xs[j:j+n]\<close> for \<open>j = i, i + n, \<dots>\<close> below
  the length of \<open>xs\<close>; \<open>write_all\<close> performs a list of writes in order and stops at
  the first that raises. Both serve only to state what the sending loop does.
\<close>

function slices :: "nat \<Rightarrow> 'a list \<Rightarrow> nat \<Rightarrow> 'a list list" where
  "slices n xs i =
     (if n = 0 \<or> length xs \<le> i then []
      else take n (drop i xs) # slices n xs (i + n))"
  by pat_completeness auto
termination
  by (relation "measure (\<lambda>(n, xs, i). length xs - i)") auto

declare slices.simps [simp del]

fun write_all :: "usb_bus \<Rightarrow> (nat \<times> bytes) list \<Rightarrow> (exn + unit) \<times> usb_bus" where
  "write_all bus [] = (Inr (), bus)"
| "write_all bus (w # ws) =
     (case device_write bus (fst w) (snd w) of
        (Inl e, bus') \<Rightarrow> (Inl e, bus')
      | (Inr u, bus') \<Rightarrow> write_all bus' ws)"

text \<open>
  \<open>rgb565_le p\<close> is the RGB565 value of the pixel \<open>p\<close> in little-endian order:
  the low byte, then the high byte.
\<close>

definition rgb565_le :: "int \<times> int \<times> int \<Rightarrow> bytes" where
  "rgb565_le p =
     (case p of (r, g, b) \<Rightarrow>
        [word_of_int (rgb888_to_rgb565 r g b mod 256),
         word_of_int (rgb888_to_rgb565 r g b div 256)])"

section \<open>Slices and sequences of writes\<close>

lemma concat_slices: "0 < n \<Longrightarrow> concat (slices n xs i) = drop i xs"
proof (induction n xs i rule: slices.induct)
  case (1 n xs i)
  show ?case
  proof (cases "length xs \<le> i")
    case True
    then show ?thesis by (simp add: slices.simps)
  next
    case False
    with 1 have "concat (slices n xs (i + n)) = drop (i + n) xs" by simp
    moreover have "take n (drop i xs) @ drop (i + n) xs = drop i xs"
      using append_take_drop_id[of n "drop i xs"] by (simp add: add.commute)
    ultimately show ?thesis using False 1(2) by (subst slices.simps) simp
  qed
qed

lemma length_slices: "0 < n \<Longrightarrow> length (slices n xs i) = (length xs - i + n - 1) div n"
proof (induction n xs i rule: slices.induct)
  case (1 n xs i)
  show ?case
  proof (cases "length xs \<le> i")
    case True
    then show ?thesis using 1(2) by (simp add: slices.simps)
  next
    case False
    with 1 have IH: "length (slices n xs (i + n)) = (length xs - (i + n) + n - 1) div n" by simp
    have "(length xs - i + n - 1) div n = Suc ((length xs - (i + n) + n - 1) div n)"
    proof (cases "length xs \<le> i + n")
      case True
      with False 1(2) have "length xs - i + n - 1 < 2 * n" "n \<le> length xs - i + n - 1" by auto
      then have "(length xs - i + n - 1) div n = 1"
        by (intro div_nat_eqI) simp_all
      moreover have "(length xs - (i + n) + n - 1) div n = 0" using True 1(2) by simp
      ultimately show ?thesis by simp
    next
      case F2: False
      then have e: "length xs - i + n - 1 = (length xs - (i + n) + n - 1) + n" by simp
      have "((length xs - (i + n) + n - 1) + n) div n = Suc ((length xs - (i + n) + n - 1) div n)"
        using 1(2) by (simp only: div_add_self2 Suc_eq_plus1) 
      then show ?thesis by (simp only: e)
    qed
    then show ?thesis using False 1(2) IH by (subst slices.simps) simp
  qed
qed

lemma nth_slices:
  "0 < n \<Longrightarrow> k < length (slices n xs i) \<Longrightarrow> slices n xs i ! k = take n (drop (i + k * n) xs)"
proof (induction n xs i arbitrary: k rule: slices.induct)
  case (1 n xs i)
  show ?case
  proof (cases "length xs \<le> i")
    case True
    then show ?thesis using 1(3) by (simp add: slices.simps)
  next
    case False
    have unf: "slices n xs i = take n (drop i xs) # slices n xs (i + n)"
      using False 1(2) by (subst slices.simps) simp
    show ?thesis
    proof (cases k)
      case 0
      then show ?thesis by (simp add: unf)
    next
      case (Suc j)
      with 1(3) unf have "j < length (slices n xs (i + n))" by simp
      with 1(1)[of j] False 1(2) have "slices n xs (i + n) ! j = take n (drop (i + n + j * n) xs)" by simp
      then show ?thesis using Suc by (simp add: unf add.assoc add.commute)
    qed
  qed
qed


lemma device_write_eq:
  "device_write bus ep d =
     ((case respond bus (calls bus @ [(ep, d)]) of None \<Rightarrow> Inr () | Some e \<Rightarrow> Inl e),
      bus\<lparr>calls := calls bus @ [(ep, d)]\<rparr>)"
  by (simp add: device_write_def Let_def split: option.splits)

lemma write_all_accept:
  "(\<And>j. j < length ws \<Longrightarrow> respond bus (calls bus @ take (Suc j) ws) = None) \<Longrightarrow>
   write_all bus ws = (Inr (), bus\<lparr>calls := calls bus @ ws\<rparr>)"
proof (induction ws arbitrary: bus)
  case Nil
  then show ?case by simp
next
  case (Cons w ws)
  let ?b = "bus\<lparr>calls := calls bus @ [w]\<rparr>"
  from Cons.prems[of 0] have r0: "respond bus (calls bus @ [w]) = None" by simp
  have "write_all ?b ws = (Inr (), ?b\<lparr>calls := calls ?b @ ws\<rparr>)"
  proof (rule Cons.IH)
    fix j assume "j < length ws"
    then show "respond ?b (calls ?b @ take (Suc j) ws) = None"
      using Cons.prems[of "Suc j"] by simp
  qed
  then show ?case using r0 by (simp add: device_write_eq)
qed

lemma write_all_fail:
  "j < length ws \<Longrightarrow> respond bus (calls bus @ take (Suc j) ws) = Some e \<Longrightarrow>
   (\<And>j'. j' < j \<Longrightarrow> respond bus (calls bus @ take (Suc j') ws) = None) \<Longrightarrow>
   write_all bus ws = (Inl e, bus\<lparr>calls := calls bus @ take (Suc j) ws\<rparr>)"
proof (induction ws arbitrary: bus j)
  case Nil
  then show ?case by simp
next
  case (Cons w ws)
  let ?b = "bus\<lparr>calls := calls bus @ [w]\<rparr>"
  show ?case
  proof (cases j)
    case 0
    with Cons.prems(2) have "respond bus (calls bus @ [w]) = Some e" by simp
    then show ?thesis using 0 by (simp add: device_write_eq)
  next
    case (Suc k)
    from Cons.prems(3)[of 0] Suc have r0: "respond bus (calls bus @ [w]) = None" by simp
    have "write_all ?b ws = (Inl e, ?b\<lparr>calls := calls ?b @ take (Suc k) ws\<rparr>)"
    proof (rule Cons.IH)
      show "k < length ws" using Cons.prems(1) Suc by simp
      show "respond ?b (calls ?b @ take (Suc k) ws) = Some e"
        using Cons.prems(2) Suc by simp
      fix j' assume "j' < k"
      then show "respond ?b (calls ?b @ take (Suc j') ws) = None"
        using Cons.prems(3)[of "Suc j'"] Suc by simp
    qed
    then show ?thesis using r0 Suc by (simp add: device_write_eq)
  qed
qed

lemma write_all_success:
  "fst (write_all bus ws) = Inr u \<Longrightarrow>
   snd (write_all bus ws) = bus\<lparr>calls := calls bus @ ws\<rparr> \<and>
   (\<forall>j<length ws. respond bus (calls bus @ take (Suc j) ws) = None)"
proof (induction ws arbitrary: bus)
  case Nil
  then show ?case by simp
next
  case (Cons w ws)
  let ?b = "bus\<lparr>calls := calls bus @ [w]\<rparr>"
  from Cons.prems have r0: "respond bus (calls bus @ [w]) = None"
    by (auto simp: device_write_eq split: option.splits)
  with Cons.prems have "fst (write_all ?b ws) = Inr u"
    by (simp add: device_write_eq)
  from Cons.IH[OF this] have
    s: "snd (write_all ?b ws) = ?b\<lparr>calls := calls ?b @ ws\<rparr>" and
    a: "\<And>j. j < length ws \<Longrightarrow> respond ?b (calls ?b @ take (Suc j) ws) = None"
    by auto
  have "\<And>j. j < length (w # ws) \<Longrightarrow> respond bus (calls bus @ take (Suc j) (w # ws)) = None"
  proof -
    fix j assume "j < length (w # ws)"
    then show "respond bus (calls bus @ take (Suc j) (w # ws)) = None"
      using r0 a by (cases j) auto
  qed
  then show ?case using s r0 by (simp add: device_write_eq)
qed

lemma send_loop_write_all:
  "0 < n \<Longrightarrow>
   send_loop n encrypted i bus bytes_sent =
     (case write_all bus (map (Pair 1) (slices n encrypted i)) of
        (Inl e, bus') \<Rightarrow> (Inl e, bus')
      | (Inr u, bus') \<Rightarrow> (Inr (bytes_sent + (length encrypted - i)), bus'))"
proof (induction n encrypted i bus bytes_sent rule: send_loop.induct)
  case (1 n encrypted i bus bytes_sent)
  show ?case
  proof (cases "i < length encrypted")
    case False
    then show ?thesis using 1(2)
      by (subst send_loop.simps) (simp add: slices.simps)
  next
    case True
    let ?chunk = "take n (drop i encrypted)"
    let ?b = "bus\<lparr>calls := calls bus @ [(1, ?chunk)]\<rparr>"
    have unf: "slices n encrypted i = ?chunk # slices n encrypted (i + n)"
      using True 1(2) by (subst slices.simps) simp
    show ?thesis
    proof (cases "respond bus (calls bus @ [(1, ?chunk)])")
      case (Some e)
      then show ?thesis using True 1(2)
        by (subst send_loop.simps) (simp add: unf device_write_eq)
    next
      case None
      have dw: "device_write bus 1 ?chunk = (Inr (), ?b)"
        using None by (simp add: device_write_eq)
      have IH: "send_loop n encrypted (i + n) ?b (bytes_sent + length ?chunk) =
        (case write_all ?b (map (Pair 1) (slices n encrypted (i + n))) of
           (Inl e, bus') \<Rightarrow> (Inl e, bus')
         | (Inr u, bus') \<Rightarrow>
             (Inr (bytes_sent + length ?chunk + (length encrypted - (i + n))), bus'))"
        using 1(1)[OF _ True refl dw[symmetric] refl] 1(2) by simp
      have len: "bytes_sent + length ?chunk + (length encrypted - (i + n)) =
                 bytes_sent + (length encrypted - i)"
        using True by (simp add: min_def)
      obtain r b' where wa: "write_all ?b (map (Pair 1) (slices n encrypted (i + n))) = (r, b')"
        by (cases "write_all ?b (map (Pair 1) (slices n encrypted (i + n)))")
      show ?thesis using True 1(2) dw IH wa len
        by (subst send_loop.simps) (cases r; simp add: unf Let_def)
    qed
  qed
qed

section \<open>The obfuscation loop and the pixel codec\<close>

lemma xor_loop_result:
  "4 \<le> length pat \<Longrightarrow>
   \<exists>out. xor_loop pat encrypted i = Inr out \<and> length out = length encrypted \<and>
     (\<forall>j<length encrypted.
        out ! j = (if i \<le> j then (encrypted ! j) XOR (pat ! (j mod 4)) else encrypted ! j))"
proof (induction pat encrypted i rule: xor_loop.induct)
  case (1 pat encrypted i)
  show ?case
  proof (cases "i < length encrypted")
    case False
    then show ?thesis by (subst xor_loop.simps) simp
  next
    case True
    let ?enc = "encrypted[i := (encrypted ! i) XOR (pat ! (i mod 4))]"
    have m: "i mod 4 < length pat" using 1(2) by (simp add: less_le_trans[of "i mod 4" 4])
    from 1(1)[OF True m 1(2)] obtain out where
      out: "xor_loop pat ?enc (Suc i) = Inr out" "length out = length ?enc"
        "\<And>j. j < length ?enc \<Longrightarrow>
           out ! j = (if Suc i \<le> j then (?enc ! j) XOR (pat ! (j mod 4)) else ?enc ! j)"
      by blast
    have "\<forall>j<length encrypted.
        out ! j = (if i \<le> j then (encrypted ! j) XOR (pat ! (j mod 4)) else encrypted ! j)"
    proof (intro allI impI)
      fix j assume j: "j < length encrypted"
      show "out ! j = (if i \<le> j then (encrypted ! j) XOR (pat ! (j mod 4)) else encrypted ! j)"
        using out(3)[of j] j by (cases "j = i") auto
    qed
    moreover have "xor_loop pat encrypted i = Inr out"
      using True m out(1) by (subst xor_loop.simps) simp
    ultimately show ?thesis using out(2) by simp
  qed
qed

lemma xor_loop_twice:
  assumes "4 \<le> length pat" "xor_loop pat b 0 = Inr e"
  shows "xor_loop pat e 0 = Inr b"
proof -
  from xor_loop_result[OF assms(1), of b 0] assms(2) have
    e: "length e = length b" "\<And>j. j < length b \<Longrightarrow> e ! j = (b ! j) XOR (pat ! (j mod 4))"
    by auto
  from xor_loop_result[OF assms(1), of e 0] obtain out where
    out: "xor_loop pat e 0 = Inr out" "length out = length e"
      "\<And>j. j < length e \<Longrightarrow> out ! j = (e ! j) XOR (pat ! (j mod 4))"
    by auto
  have "out = b"
  proof (rule nth_equalityI)
    show "length out = length b" using out(2) e(1) by simp
    fix j assume "j < length out"
    then have j: "j < length b" using out(2) e(1) by simp
    then show "out ! j = b ! j" using out(3)[of j] e by (simp add: xor.assoc)
  qed
  then show ?thesis using out(1) by simp
qed

lemma rgb565_arith:
  "rgb888_to_rgb565 r g b =
     (r div 8 mod 32) * 2048 + (g div 4 mod 64) * 32 + (b div 8 mod 32)"
proof -
  have a: "(drop_bit 3 r) AND 0x1F = take_bit 5 (drop_bit 3 r)"
    using take_bit_eq_mask[of 5 "drop_bit 3 r"] by (simp add: mask_eq_exp_minus_1)
  have b: "(drop_bit 2 g) AND 0x3F = take_bit 6 (drop_bit 2 g)"
    using take_bit_eq_mask[of 6 "drop_bit 2 g"] by (simp add: mask_eq_exp_minus_1)
  have c: "(drop_bit 3 b) AND 0x1F = take_bit 5 (drop_bit 3 b)"
    using take_bit_eq_mask[of 5 "drop_bit 3 b"] by (simp add: mask_eq_exp_minus_1)
  let ?R = "push_bit 11 (take_bit 5 (drop_bit 3 r))"
  let ?G = "push_bit 5 (take_bit 6 (drop_bit 2 g))"
  let ?B = "take_bit 5 (drop_bit 3 b)"
  have d1: "?R AND ?G = 0"
    by (rule bit_eqI) (auto simp: bit_simps)
  have d2: "(?R OR ?G) AND ?B = 0"
    by (rule bit_eqI) (auto simp: bit_simps)
  have "rgb888_to_rgb565 r g b = (?R OR ?G) OR ?B"
    by (simp only: rgb888_to_rgb565_def Let_def a b c)
  also have "\<dots> = ?R + ?G + ?B"
    using disjunctive_add_eq_or[OF d1] disjunctive_add_eq_or[OF d2] by simp
  also have "\<dots> = (r div 8 mod 32) * 2048 + (g div 4 mod 64) * 32 + (b div 8 mod 32)"
    by (simp add: push_bit_eq_mult take_bit_eq_mod drop_bit_eq_div)
  finally show ?thesis .
qed

lemma rgb565_range: "0 \<le> rgb888_to_rgb565 r g b \<and> rgb888_to_rgb565 r g b \<le> 65535"
proof -
  have "0 \<le> r div 8 mod 32" "r div 8 mod 32 \<le> 31" "0 \<le> g div 4 mod 64" "g div 4 mod 64 \<le> 63"
    "0 \<le> b div 8 mod 32" "b div 8 mod 32 \<le> 31"
    using pos_mod_bound[of 32 "r div 8"] pos_mod_bound[of 64 "g div 4"] pos_mod_bound[of 32 "b div 8"]
    by simp_all
  then show ?thesis unfolding rgb565_arith by linarith
qed

lemma pack_H_rgb565:
  "pack_H (rgb888_to_rgb565 r g b) =
     Inr [word_of_int (rgb888_to_rgb565 r g b), word_of_int (rgb888_to_rgb565 r g b div 256)]"
proof -
  have "rgb888_to_rgb565 r g b AND 0xFF = take_bit 8 (rgb888_to_rgb565 r g b)"
    using take_bit_eq_mask[of 8 "rgb888_to_rgb565 r g b"] by (simp add: mask_eq_exp_minus_1)
  moreover have "word_of_int (take_bit 8 (rgb888_to_rgb565 r g b)) = (word_of_int (rgb888_to_rgb565 r g b) :: byte)"
    by (rule bit_word_eqI) (auto simp: bit_simps)
  ultimately have "word_of_int (rgb888_to_rgb565 r g b AND 0xFF) = (word_of_int (rgb888_to_rgb565 r g b) :: byte)"
    by simp
  then show ?thesis using rgb565_range[of r g b]
    by (simp add: pack_H_def drop_bit_eq_div)
qed

section \<open>The framebuffer loops\<close>

lemma pack_H_rgb565_le: "pack_H (rgb888_to_rgb565 r g b) = Inr (rgb565_le (r, g, b))"
proof -
  have "(word_of_int (rgb888_to_rgb565 r g b mod 256) :: byte) = word_of_int (rgb888_to_rgb565 r g b)"
    by (simp add: word_of_int_eq_iff take_bit_eq_mod)
  then show ?thesis by (simp add: pack_H_rgb565 rgb565_le_def)
qed

lemma length_rgb565_le: "length (rgb565_le p) = 2"
  by (simp add: rgb565_le_def split: prod.splits)

lemma pixel_loop_result:
  "(\<And>x. x \<in> set xs \<Longrightarrow> x < fst (img_size img)) \<Longrightarrow> y < snd (img_size img) \<Longrightarrow>
   pixel_loop img y xs line_data =
     Inr (line_data @ concat (map (\<lambda>x. rgb565_le (pixel img (x, y))) xs))"
proof (induction xs arbitrary: line_data)
  case Nil
  then show ?case by simp
next
  case (Cons x xs)
  obtain r g b where p: "pixel img (x, y) = (r, g, b)" by (cases "pixel img (x, y)")
  have gp: "getpixel img (x, y) = Inr (r, g, b)"
    using Cons.prems(1)[of x] Cons.prems(2) p by (simp add: getpixel_def)
  have "pixel_loop img y xs (line_data @ rgb565_le (r, g, b)) =
     Inr ((line_data @ rgb565_le (r, g, b)) @ concat (map (\<lambda>x. rgb565_le (pixel img (x, y))) xs))"
    using Cons.prems by (intro Cons.IH) simp_all
  then show ?case by (simp add: gp pack_H_rgb565_le p)
qed

lemma line_loop_result:
  "width \<le> fst (img_size img) \<Longrightarrow> (\<And>y. y \<in> set ys \<Longrightarrow> y < snd (img_size img)) \<Longrightarrow>
   line_loop img width padding ys framebuffer =
     Inr (framebuffer @
          concat (map (\<lambda>y. concat (map (\<lambda>x. rgb565_le (pixel img (x, y))) [0..<width])
                            @ replicate padding 0) ys))"
proof (induction ys arbitrary: framebuffer)
  case Nil
  then show ?case by simp
next
  case (Cons y ys)
  have row: "pixel_loop img y [0..<width] [] =
     Inr (concat (map (\<lambda>x. rgb565_le (pixel img (x, y))) [0..<width]))"
    using pixel_loop_result[of "[0..<width]" img y "[]"] Cons.prems by simp
  have "line_loop img width padding ys
          (framebuffer @ (concat (map (\<lambda>x. rgb565_le (pixel img (x, y))) [0..<width]) @ replicate padding 0)) =
     Inr ((framebuffer @ (concat (map (\<lambda>x. rgb565_le (pixel img (x, y))) [0..<width]) @ replicate padding 0)) @
          concat (map (\<lambda>y. concat (map (\<lambda>x. rgb565_le (pixel img (x, y))) [0..<width])
                            @ replicate padding 0) ys))"
    using Cons.prems by (intro Cons.IH) simp_all
  then show ?case by (simp add: row)
qed

lemma length_row:
  "length (concat (map (\<lambda>x. rgb565_le (f x)) xs)) = 2 * length xs"
  by (induction xs) (simp_all add: length_rgb565_le)

lemma length_rows:
  "length (concat (map (\<lambda>y. concat (map (\<lambda>x. rgb565_le (f x y)) [0..<width]) @ replicate padding 0) ys))
     = length ys * (width * 2 + padding)"
  by (induction ys) (simp_all add: length_row)

lemma build_framebuffer_result:
  "width \<le> fst (img_size img) \<Longrightarrow> height \<le> snd (img_size img) \<Longrightarrow>
   build_framebuffer img width height padding =
     Inr (concat (map (\<lambda>y. concat (map (\<lambda>x. rgb565_le (pixel img (x, y))) [0..<width])
                            @ replicate padding 0) [0..<height]))"
  using line_loop_result[of width img "[0..<height]" padding "[]"]
  by (simp add: build_framebuffer_def)

lemma prepare_image_result:
  "Image_open lib image_path = Inr img0 \<Longrightarrow>
   prepare_image lib image_path =
     Inr (concat (map (\<lambda>y. concat (map (\<lambda>x. rgb565_le
                                 (resample lib img0 (DISPLAY_WIDTH, DISPLAY_HEIGHT) (x, y)))
                               [0..<DISPLAY_WIDTH])
                            @ replicate LINE_PADDING 0) [0..<DISPLAY_HEIGHT]))"
  using build_framebuffer_result[of DISPLAY_WIDTH
          "resize lib img0 (DISPLAY_WIDTH, DISPLAY_HEIGHT)" DISPLAY_HEIGHT LINE_PADDING]
  by (simp add: prepare_image_def resize_def)

lemma prepare_image_length:
  assumes "Image_open lib image_path = Inr img0" "prepare_image lib image_path = Inr fb"
  shows "length fb = 327680"
proof -
  have "length fb = length [0..<DISPLAY_HEIGHT] * (DISPLAY_WIDTH * 2 + LINE_PADDING)"
    using assms(2)
      length_rows[of "\<lambda>x y. resample lib img0 (DISPLAY_WIDTH, DISPLAY_HEIGHT) (x, y)"
        DISPLAY_WIDTH LINE_PADDING "[0..<DISPLAY_HEIGHT]"]
    by (simp only: prepare_image_result[OF assms(1)] sum.inject)
  also have "\<dots> = 327680"
    by (simp add: DISPLAY_WIDTH_def DISPLAY_HEIGHT_def LINE_PADDING_def)
  finally show ?thesis .
qed

section \<open>What a frame transmission writes\<close>

lemma less_ceil_div:
  fixes m a n :: nat
  assumes "0 < n"
  shows "(m < (a + n - 1) div n) = (m * n < a)"
proof -
  have "(m < (a + n - 1) div n) = (Suc m \<le> (a + n - 1) div n)" by auto
  also have "\<dots> = (Suc m * n \<le> a + n - 1)"
    using assms by (simp only: less_eq_div_iff_mult_less_eq)
  also have "\<dots> = (m * n < a)" using assms by auto
  finally show ?thesis .
qed

lemma slices_eq_map:
  assumes "0 < n"
  shows "slices n xs 0 = map (\<lambda>k. take n (drop (k * n) xs)) [0..<(length xs + n - 1) div n]"
proof (rule nth_equalityI)
  show "length (slices n xs 0) = length (map (\<lambda>k. take n (drop (k * n) xs)) [0..<(length xs + n - 1) div n])"
    using length_slices[OF assms, of xs 0] by simp
next
  fix k assume "k < length (slices n xs 0)"
  then show "slices n xs 0 ! k = map (\<lambda>k. take n (drop (k * n) xs)) [0..<(length xs + n - 1) div n] ! k"
    using nth_slices[OF assms, of k xs 0] length_slices[OF assms, of xs 0] by simp
qed

lemma slices_chunk_length:
  assumes "0 < n" "k < length (slices n xs 0)"
  shows "length (slices n xs 0 ! k) = min n (length xs - k * n)" "k * n < length xs"
proof -
  show "length (slices n xs 0 ! k) = min n (length xs - k * n)"
    using nth_slices[OF assms, of ] by (simp add: min.commute)
  show "k * n < length xs"
    using assms(2) length_slices[OF assms(1), of xs 0] less_ceil_div[OF assms(1), of k "length xs"]
    by simp
qed

lemma slices_bounds:
  assumes "0 < n" "c \<in> set (slices n xs 0)"
  shows "0 < length c \<and> length c \<le> n"
proof -
  from assms(2) obtain k where k: "k < length (slices n xs 0)" "c = slices n xs 0 ! k"
    by (auto simp: in_set_conv_nth)
  show ?thesis using slices_chunk_length[OF assms(1) k(1)] k(2) assms(1) by simp
qed

lemma slices_full:
  assumes "0 < n" "Suc k < length (slices n xs 0)"
  shows "length (slices n xs 0 ! k) = n"
proof -
  have "Suc k * n < length xs" using slices_chunk_length(2)[OF assms] .
  moreover have "k < length (slices n xs 0)" using assms(2) by simp
  ultimately show ?thesis using slices_chunk_length(1)[OF assms(1), of k xs] by simp
qed

lemma last_slices:
  "0 < n \<Longrightarrow> i < length xs \<Longrightarrow>
   length (last (slices n xs i)) =
     (if (length xs - i) mod n = 0 then n else (length xs - i) mod n)"
proof (induction n xs i rule: slices.induct)
  case (1 n xs i)
  have unf: "slices n xs i = take n (drop i xs) # slices n xs (i + n)"
    using 1(2,3) by (subst slices.simps) simp
  show ?case
  proof (cases "i + n < length xs")
    case True
    then have ne: "slices n xs (i + n) \<noteq> []"
      using 1(2) by (subst slices.simps) simp
    have m: "(length xs - (i + n)) mod n = (length xs - i) mod n"
      using True le_mod_geq[of n "length xs - i"] by simp
    have "length (last (slices n xs (i + n))) =
      (if (length xs - (i + n)) mod n = 0 then n else (length xs - (i + n)) mod n)"
      using 1(1) 1(2,3) True by simp
    then show ?thesis using ne by (simp only: unf last.simps m if_False)
  next
    case False
    then have e: "slices n xs (i + n) = []" by (subst slices.simps) simp
    show ?thesis
    proof (cases "length xs - i = n")
      case True
      then show ?thesis by (simp add: unf e)
    next
      case F: False
      with False 1(3) have "length xs - i < n" by simp
      then show ?thesis using 1(3) by (simp add: unf e)
    qed
  qed
qed

lemma encrypt_framebuffer_result:
  "\<exists>out. encrypt_framebuffer fb = Inr out \<and> length out = length fb \<and>
     (\<forall>j<length fb. out ! j = (fb ! j) XOR (XOR_PATTERN ! (j mod 4)))"
proof -
  have "4 \<le> length XOR_PATTERN" by (simp add: XOR_PATTERN_def)
  from xor_loop_result[OF this, of fb 0] show ?thesis
    by (simp add: encrypt_framebuffer_def)
qed

lemma CHUNK_SIZE_pos: "0 < CHUNK_SIZE"
  by (simp add: CHUNK_SIZE_def)

lemma send_frame_write_all:
  assumes "device self \<noteq> None" "encrypt_framebuffer fb = Inr enc"
  shows "send_frame self bus fb =
           write_all bus ((1, FRAME_HEADER) # map (Pair 1) (slices CHUNK_SIZE enc 0))"
proof (cases "respond bus (calls bus @ [(1, FRAME_HEADER)])")
  case (Some e)
  then show ?thesis using assms by (simp add: send_frame_def device_write_eq)
next
  case None
  let ?b = "bus\<lparr>calls := calls bus @ [(1, FRAME_HEADER)]\<rparr>"
  obtain r b' where wa: "write_all ?b (map (Pair 1) (slices CHUNK_SIZE enc 0)) = (r, b')"
    by (cases "write_all ?b (map (Pair 1) (slices CHUNK_SIZE enc 0))")
  have sl: "send_loop CHUNK_SIZE enc 0 ?b 0 =
     (case r of Inl e \<Rightarrow> (Inl e, b') | Inr u \<Rightarrow> (Inr (length enc), b'))"
    using send_loop_write_all[OF CHUNK_SIZE_pos, of enc 0 ?b 0] wa by (cases r) simp_all
  show ?thesis using assms None wa sl
    by (cases r) (simp_all add: send_frame_def device_write_eq)
qed

lemma send_frame_calls_success:
  assumes "device self \<noteq> None" "encrypt_framebuffer fb = Inr enc"
    "fst (send_frame self bus fb) = Inr u"
  shows "snd (send_frame self bus fb) =
           bus\<lparr>calls := calls bus @ (1, FRAME_HEADER) # map (Pair 1) (slices CHUNK_SIZE enc 0)\<rparr>"
  using write_all_success[of bus "(1, FRAME_HEADER) # map (Pair 1) (slices CHUNK_SIZE enc 0)" u]
    assms(3)
  by (simp only: send_frame_write_all[OF assms(1,2)])

lemma send_frame_accepts:
  assumes "device self \<noteq> None" "\<And>log. respond bus log = None"
  shows "fst (send_frame self bus fb) = Inr ()"
proof -
  obtain enc where enc: "encrypt_framebuffer fb = Inr enc"
    using encrypt_framebuffer_result[of fb] by blast
  show ?thesis
    using write_all_accept[of "(1, FRAME_HEADER) # map (Pair 1) (slices CHUNK_SIZE enc 0)" bus] assms(2)
    by (simp only: send_frame_write_all[OF assms(1) enc] fst_conv)
qed

lemma send_loop_success:
  assumes "0 < n" "send_loop n encrypted 0 bus 0 = (Inr sent, bus')"
  shows "bus' = bus\<lparr>calls := calls bus @ map (Pair 1) (slices n encrypted 0)\<rparr>"
    "sent = length encrypted"
proof -
  obtain r b where wa: "write_all bus (map (Pair 1) (slices n encrypted 0)) = (r, b)"
    by (cases "write_all bus (map (Pair 1) (slices n encrypted 0))")
  have r: "r = Inr ()" "b = bus'" "sent = length encrypted"
    using send_loop_write_all[OF assms(1), of encrypted 0 bus 0] assms(2) wa
    by (cases r; simp)+
  show "sent = length encrypted" by (rule r(3))
  show "bus' = bus\<lparr>calls := calls bus @ map (Pair 1) (slices n encrypted 0)\<rparr>"
    using write_all_success[of bus "map (Pair 1) (slices n encrypted 0)" "()"] wa r by simp
qed

lemma slices_327680:
  assumes "length enc = 327680"
  shows "length (slices CHUNK_SIZE enc 0) = 20"
    "c \<in> set (slices CHUNK_SIZE enc 0) \<Longrightarrow> length c = 16384"
proof -
  show l: "length (slices CHUNK_SIZE enc 0) = 20"
    using length_slices[OF CHUNK_SIZE_pos, of enc 0] assms by (simp add: CHUNK_SIZE_def)
  assume "c \<in> set (slices CHUNK_SIZE enc 0)"
  then obtain k where k: "k < length (slices CHUNK_SIZE enc 0)" "c = slices CHUNK_SIZE enc 0 ! k"
    by (auto simp: in_set_conv_nth)
  have "length c = min CHUNK_SIZE (length enc - k * CHUNK_SIZE)"
    using slices_chunk_length(1)[OF CHUNK_SIZE_pos k(1)] k(2) by simp
  moreover have "k < 20" using k(1) l by simp
  ultimately show "length c = 16384" using assms by (simp add: CHUNK_SIZE_def)
qed

lemma FRAME_HEADER_bytes:
  "FRAME_HEADER = [0xFF, 0xCC, 0xAA, 0x88, 0, 0, 0, 0, 0, 0, 0, 0, 0, 0, 0, 0]"
  by (simp add: FRAME_HEADER_def)

lemma write_all_calls:
  "\<exists>m. calls (snd (write_all bus ws)) = calls bus @ take m ws"
proof (induction ws arbitrary: bus)
  case Nil
  then show ?case by simp
next
  case (Cons w ws)
  let ?b = "bus\<lparr>calls := calls bus @ [w]\<rparr>"
  show ?case
  proof (cases "respond bus (calls bus @ [w])")
    case (Some e)
    then have "calls (snd (write_all bus (w # ws))) = calls bus @ take (Suc 0) (w # ws)"
      by (simp add: device_write_eq)
    then show ?thesis by blast
  next
    case None
    from Cons.IH[of ?b] obtain m where "calls (snd (write_all ?b ws)) = calls ?b @ take m ws"
      by blast
    then have "calls (snd (write_all bus (w # ws))) = calls bus @ take (Suc m) (w # ws)"
      using None by (simp add: device_write_eq)
    then show ?thesis by blast
  qed
qed

lemma write_all_first:
  "take (Suc (length (calls bus))) (calls (snd (write_all bus (w # ws)))) = calls bus @ [w]"
proof (cases "respond bus (calls bus @ [w])")
  case (Some e)
  then show ?thesis by (simp add: device_write_eq)
next
  case None
  let ?b = "bus\<lparr>calls := calls bus @ [w]\<rparr>"
  from write_all_calls[of ?b ws] obtain m where
    "calls (snd (write_all ?b ws)) = calls ?b @ take m ws" by blast
  then show ?thesis using None by (simp add: device_write_eq)
qed

lemma send_frame_header_first:
  assumes "device self \<noteq> None"
  shows "take (Suc (length (calls bus))) (calls (snd (send_frame self bus fb)))
           = calls bus @ [(1, FRAME_HEADER)]"
proof -
  obtain enc where enc: "encrypt_framebuffer fb = Inr enc"
    using encrypt_framebuffer_result[of fb] by blast
  show ?thesis
    using write_all_first[of bus "(1, FRAME_HEADER)" "map (Pair 1) (slices CHUNK_SIZE enc 0)"]
    by (simp only: send_frame_write_all[OF assms enc])
qed

lemma send_frame_header_failure:
  assumes "device self \<noteq> None" "respond bus (calls bus @ [(1, FRAME_HEADER)]) = Some e"
  shows "send_frame self bus fb = (Inl e, bus\<lparr>calls := calls bus @ [(1, FRAME_HEADER)]\<rparr>)"
  using assms by (simp add: send_frame_def device_write_eq)

lemma send_frame_success_calls:
  assumes "device self \<noteq> None" "fst (send_frame self bus fb) = Inr ()"
  shows "\<exists>enc. encrypt_framebuffer fb = Inr enc \<and> length enc = length fb \<and>
     calls (snd (send_frame self bus fb)) =
       calls bus @ (1, FRAME_HEADER) #
         map (\<lambda>k. (1, take CHUNK_SIZE (drop (k * CHUNK_SIZE) enc)))
           [0..<(length fb + CHUNK_SIZE - 1) div CHUNK_SIZE]"
proof -
  obtain enc where enc: "encrypt_framebuffer fb = Inr enc" "length enc = length fb"
    using encrypt_framebuffer_result[of fb] by blast
  have "calls (snd (send_frame self bus fb)) =
          calls bus @ (1, FRAME_HEADER) # map (Pair 1) (slices CHUNK_SIZE enc 0)"
    using send_frame_calls_success[OF assms(1) enc(1) assms(2)] by simp
  also have "map (Pair (1::nat)) (slices CHUNK_SIZE enc 0) =
     map (\<lambda>k. (1, take CHUNK_SIZE (drop (k * CHUNK_SIZE) enc)))
           [0..<(length fb + CHUNK_SIZE - 1) div CHUNK_SIZE]"
    by (simp only: slices_eq_map[OF CHUNK_SIZE_pos] enc(2) map_map comp_def)
  finally show ?thesis using enc by blast
qed

lemma send_frame_payload:
  assumes "device self \<noteq> None" "fst (send_frame self bus fb) = Inr ()"
  shows "encrypt_framebuffer fb =
           Inr (concat (map snd (drop (Suc (length (calls bus)))
                                   (calls (snd (send_frame self bus fb))))))"
proof -
  obtain enc where enc: "encrypt_framebuffer fb = Inr enc"
    using encrypt_framebuffer_result[of fb] by blast
  have "calls (snd (send_frame self bus fb)) =
          calls bus @ (1, FRAME_HEADER) # map (Pair 1) (slices CHUNK_SIZE enc 0)"
    using send_frame_calls_success[OF assms(1) enc assms(2)] by simp
  then have "map snd (drop (Suc (length (calls bus))) (calls (snd (send_frame self bus fb))))
       = slices CHUNK_SIZE enc 0"
    by (simp add: comp_def)
  then show ?thesis using enc concat_slices[OF CHUNK_SIZE_pos, of enc 0] by simp
qed

lemma send_frame_327680:
  assumes "device self \<noteq> None" "fst (send_frame self bus fb) = Inr ()" "length fb = 327680"
  shows "length (calls (snd (send_frame self bus fb))) = length (calls bus) + 21"
    "sum_list (map (\<lambda>w. length (snd w))
        (drop (Suc (length (calls bus))) (calls (snd (send_frame self bus fb))))) = 327680"
proof -
  obtain enc where enc: "encrypt_framebuffer fb = Inr enc" "length enc = length fb"
    using encrypt_framebuffer_result[of fb] by blast
  have c: "calls (snd (send_frame self bus fb)) =
          calls bus @ (1, FRAME_HEADER) # map (Pair 1) (slices CHUNK_SIZE enc 0)"
    using send_frame_calls_success[OF assms(1) enc(1) assms(2)] by simp
  have l: "length (slices CHUNK_SIZE enc 0) = 20"
    using slices_327680(1)[of enc] enc(2) assms(3) by simp
  show "length (calls (snd (send_frame self bus fb))) = length (calls bus) + 21"
    using c l by simp
  have "sum_list (map (\<lambda>w. length (snd w))
        (drop (Suc (length (calls bus))) (calls (snd (send_frame self bus fb)))))
      = sum_list (map length (slices CHUNK_SIZE enc 0))"
    using c by (simp add: comp_def)
  also have "\<dots> = length (concat (slices CHUNK_SIZE enc 0))"
    by (simp add: length_concat)
  also have "\<dots> = 327680"
    using concat_slices[OF CHUNK_SIZE_pos, of enc 0] enc(2) assms(3) by simp
  finally show "sum_list (map (\<lambda>w. length (snd w))
        (drop (Suc (length (calls bus))) (calls (snd (send_frame self bus fb))))) = 327680" .
qed

lemma send_frame_fail:
  assumes "device self \<noteq> None" "encrypt_framebuffer fb = Inr enc"
    and "j < Suc (length (slices CHUNK_SIZE enc 0))"
    and "respond bus (calls bus @ take (Suc j)
           ((1, FRAME_HEADER) # map (Pair 1) (slices CHUNK_SIZE enc 0))) = Some e"
    and "\<And>j'. j' < j \<Longrightarrow> respond bus (calls bus @ take (Suc j')
           ((1, FRAME_HEADER) # map (Pair 1) (slices CHUNK_SIZE enc 0))) = None"
  shows "send_frame self bus fb =
           (Inl e, bus\<lparr>calls := calls bus @ take (Suc j)
              ((1, FRAME_HEADER) # map (Pair 1) (slices CHUNK_SIZE enc 0))\<rparr>)"
proof -
  let ?W = "(1, FRAME_HEADER) # map (Pair 1) (slices CHUNK_SIZE enc 0)"
  have "j < length ?W" using assms(3) by simp
  from write_all_fail[OF this assms(4) assms(5)]
  show ?thesis by (simp only: send_frame_write_all[OF assms(1,2)])
qed

lemma sum_list_const:
  "(\<And>x. x \<in> set xs \<Longrightarrow> f x = (c::nat)) \<Longrightarrow> sum_list (map f xs) = length xs * c"
  by (induction xs) simp_all

lemma slices_prefix_bytes:
  assumes "0 < n" "k < length (slices n xs 0)"
  shows "sum_list (map length (take k (slices n xs 0))) = k * n"
proof -
  have "\<And>c. c \<in> set (take k (slices n xs 0)) \<Longrightarrow> length c = n"
  proof -
    fix c assume "c \<in> set (take k (slices n xs 0))"
    then obtain j where j: "j < length (take k (slices n xs 0))" "c = take k (slices n xs 0) ! j"
      by (auto simp: in_set_conv_nth)
    then have "j < k" "Suc j < length (slices n xs 0)" using assms(2) by simp_all
    then show "length c = n" using slices_full[OF assms(1), of j xs] j(2) by simp
  qed
  from sum_list_const[of "take k (slices n xs 0)" length n, OF this]
  show ?thesis using assms(2) by simp
qed

lemma rgb565_le_value:
  "\<exists>lo hi. rgb565_le (r, g, b) = [lo, hi] \<and>
     uint lo + 256 * uint hi = rgb888_to_rgb565 r g b"
proof -
  let ?v = "rgb888_to_rgb565 r g b"
  have rng: "0 \<le> ?v" "?v \<le> 65535" using rgb565_range[of r g b] by simp_all
  have lo: "uint (word_of_int (?v mod 256) :: byte) = ?v mod 256"
    by (simp add: uint_word_of_int)
  have "0 \<le> ?v div 256" "?v div 256 < 256" using rng by linarith+
  then have hi: "uint (word_of_int (?v div 256) :: byte) = ?v div 256"
    by (simp add: uint_word_of_int)
  have "rgb565_le (r, g, b) = [word_of_int (?v mod 256), word_of_int (?v div 256)]"
    by (simp add: rgb565_le_def)
  moreover have "uint (word_of_int (?v mod 256) :: byte) + 256 * uint (word_of_int (?v div 256) :: byte) = ?v"
    unfolding lo hi by simp
  ultimately show ?thesis by blast
qed

lemma prepare_image_total:
  assumes "Image_open lib image_path = Inr img0"
  shows "\<exists>fb. prepare_image lib image_path = Inr fb \<and> length fb = 327680"
proof -
  obtain fb where fb: "prepare_image lib image_path = Inr fb"
    using prepare_image_result[OF assms] by blast
  then show ?thesis using prepare_image_length[OF assms fb] by blast
qed

section \<open>The store-level operations agree with the value-level ones\<close>





section \<open>The claims\<close>

text \<open>
  C7. For all \<open>r\<close>, \<open>g\<close>, \<open>b\<close> in \<open>[0, 255]\<close> the pixel codec returns exactly
  \<^verbatim>\<open>((r>>3)&0x1F)<<11 | ((g>>2)&0x3F)<<5 | ((b>>3)&0x1F)\<close>. The three fields do not
  overlap, so the value is also \<open>(r div 8) * 2048 + (g div 4) * 32 + b div 8\<close>, and it
  fits 16 bits. The function is a total HOL function: no input makes it fail. In
  particular the codec maps \<open>(255, 0, 0)\<close> to \<open>0xF800\<close>.
\<close>

theorem rgb888_to_rgb565_exact:
  assumes "0 \<le> r" "r \<le> 255" "0 \<le> g" "g \<le> 255" "0 \<le> b" "b \<le> 255"
  shows "rgb888_to_rgb565 r g b =
           ((push_bit 11 ((drop_bit 3 r) AND 0x1F)) OR (push_bit 5 ((drop_bit 2 g) AND 0x3F)))
             OR ((drop_bit 3 b) AND 0x1F)
         \<and> rgb888_to_rgb565 r g b = (r div 8) * 2048 + (g div 4) * 32 + b div 8
         \<and> 0 \<le> rgb888_to_rgb565 r g b \<and> rgb888_to_rgb565 r g b \<le> 0xFFFF
         \<and> rgb888_to_rgb565 255 0 0 = 0xF800"
proof (intro conjI)
  show "rgb888_to_rgb565 r g b =
           ((push_bit 11 ((drop_bit 3 r) AND 0x1F)) OR (push_bit 5 ((drop_bit 2 g) AND 0x3F)))
             OR ((drop_bit 3 b) AND 0x1F)"
    by (simp only: rgb888_to_rgb565_def Let_def)
next
  have "0 \<le> r div 8" "r div 8 < 32" "0 \<le> g div 4" "g div 4 < 64" "0 \<le> b div 8" "b div 8 < 32"
    using assms by linarith+
  then have "r div 8 mod 32 = r div 8" "g div 4 mod 64 = g div 4" "b div 8 mod 32 = b div 8"
    by (simp_all only: mod_pos_pos_trivial)
  then show "rgb888_to_rgb565 r g b = (r div 8) * 2048 + (g div 4) * 32 + b div 8"
    by (simp only: rgb565_arith)
next
  show "0 \<le> rgb888_to_rgb565 r g b" using rgb565_range[of r g b] by (rule conjunct1)
next
  show "rgb888_to_rgb565 r g b \<le> 0xFFFF" using rgb565_range[of r g b] by simp
next
  have "rgb888_to_rgb565 255 0 0 = (255 div 8 mod 32) * 2048 + (0 div 4 mod 64) * 32 + (0 div 8 mod 32)"
    by (rule rgb565_arith)
  also have "\<dots> = 0xF800" by simp
  finally show "rgb888_to_rgb565 255 0 0 = 0xF800" .
qed

theorem rgb888_to_rgb565_exact_witness:
  "(0::int) \<le> 200 \<and> (200::int) \<le> 255 \<and> (0::int) \<le> 100 \<and> (100::int) \<le> 255
   \<and> (0::int) \<le> 50 \<and> (50::int) \<le> 255
   \<and> rgb888_to_rgb565 200 100 50 = 52006"
  using rgb888_to_rgb565_exact[of 200 100 50] by simp

text \<open>
  C6. Applying the XOR loop twice with the same 4-byte key returns the original buffer,
  for every buffer and every key of four bytes; the loop never raises for such a key and
  keeps the length. The same holds for \<open>encrypt_framebuffer\<close>, which runs the loop
  with the key \<open>XOR_PATTERN\<close>.
\<close>

theorem xor_involution:
  assumes "length key = 4"
  shows "(\<exists>e. xor_loop key b 0 = Inr e \<and> length e = length b \<and> xor_loop key e 0 = Inr b)
       \<and> (\<exists>e. encrypt_framebuffer b = Inr e \<and> encrypt_framebuffer e = Inr b)"
proof -
  have k: "4 \<le> length key" using assms by simp
  from xor_loop_result[OF k, of b 0] obtain e where
    e: "xor_loop key b 0 = Inr e" "length e = length b" by blast
  have x: "4 \<le> length XOR_PATTERN" by (simp add: XOR_PATTERN_def)
  from xor_loop_result[OF x, of b 0] obtain e' where
    e': "xor_loop XOR_PATTERN b 0 = Inr e'" by blast
  show ?thesis
    using e xor_loop_twice[OF k e(1)] e' xor_loop_twice[OF x e']
    by (auto simp: encrypt_framebuffer_def)
qed

theorem xor_involution_witness:
  "length [0x01, 0x02, 0x03, 0x04 :: byte] = 4
   \<and> xor_loop [0x01, 0x02, 0x03, 0x04] [0x10, 0x20, 0x30, 0x40, 0x50, 0x60] 0
       = Inr [0x11, 0x22, 0x33, 0x44, 0x51, 0x62]
   \<and> xor_loop [0x01, 0x02, 0x03, 0x04] [0x11, 0x22, 0x33, 0x44, 0x51, 0x62] 0
       = Inr [0x10, 0x20, 0x30, 0x40, 0x50, 0x60]"
proof -
  have v: "xor_loop [0x01, 0x02, 0x03, 0x04] [0x10, 0x20, 0x30, 0x40, 0x50, 0x60] 0
       = Inr [0x11, 0x22, 0x33, 0x44, 0x51, 0x62 :: byte]"
    by (simp add: xor_loop.simps)
  show ?thesis
    using xor_involution[of "[0x01, 0x02, 0x03, 0x04]" "[0x10, 0x20, 0x30, 0x40, 0x50, 0x60]"] v
    by simp
qed

text \<open>
  C1. For every payload of length \<open>n > 0\<close> and chunk size \<open>chunk_size > 0\<close>, a
  sending loop that returns has written, in order, the slices
  \<open>take chunk_size (drop (k * chunk_size) encrypted)\<close> for
  \<open>k < \<lceil>n / chunk_size\<rceil>\<close>: every chunk is non-empty and at most \<open>chunk_size\<close> long,
  every chunk but the last is full, the last holds \<open>n mod chunk_size\<close> bytes (a full
  chunk when \<open>chunk_size\<close> divides \<open>n\<close>), and the chunks concatenated are the payload.
  In particular a successful \<open>send_frame\<close> of a 327,680-byte framebuffer writes the
  header and then exactly 20 chunks of 16,384 bytes each, which concatenated are the
  obfuscated framebuffer.
\<close>

theorem send_frame_chunking:
  assumes "0 < chunk_size" "0 < length encrypted"
    "send_loop chunk_size encrypted 0 bus 0 = (Inr sent, bus')"
  shows "(\<exists>chunks. calls bus' = calls bus @ map (Pair 1) chunks
            \<and> concat chunks = encrypted
            \<and> (\<forall>c\<in>set chunks. 0 < length c \<and> length c \<le> chunk_size)
            \<and> length chunks = (length encrypted + chunk_size - 1) div chunk_size
            \<and> (\<forall>k<length chunks. chunks ! k = take chunk_size (drop (k * chunk_size) encrypted))
            \<and> (\<forall>k. Suc k < length chunks \<longrightarrow> length (chunks ! k) = chunk_size)
            \<and> length (last chunks) =
                (if length encrypted mod chunk_size = 0 then chunk_size
                 else length encrypted mod chunk_size))
       \<and> sent = length encrypted
       \<and> (device self \<noteq> None \<longrightarrow> length framebuffer = 327680 \<longrightarrow>
            fst (send_frame self bus framebuffer) = Inr () \<longrightarrow>
            (\<exists>enc chunks. encrypt_framebuffer framebuffer = Inr enc
               \<and> calls (snd (send_frame self bus framebuffer)) =
                   calls bus @ (1, FRAME_HEADER) # map (Pair 1) chunks
               \<and> concat chunks = enc \<and> length chunks = 20
               \<and> (\<forall>c\<in>set chunks. length c = 16384)))"
proof (intro conjI)
  let ?chunks = "slices chunk_size encrypted 0"
  have "calls bus' = calls bus @ map (Pair 1) ?chunks"
    using send_loop_success(1)[OF assms(1,3)] by simp
  moreover have "concat ?chunks = encrypted"
    using concat_slices[OF assms(1), of encrypted 0] by simp
  moreover have "\<forall>c\<in>set ?chunks. 0 < length c \<and> length c \<le> chunk_size"
    using slices_bounds[OF assms(1)] by blast
  moreover have "length ?chunks = (length encrypted + chunk_size - 1) div chunk_size"
    using length_slices[OF assms(1), of encrypted 0] by simp
  moreover have "\<forall>k<length ?chunks. ?chunks ! k = take chunk_size (drop (k * chunk_size) encrypted)"
    using nth_slices[OF assms(1), of _ encrypted 0] by simp
  moreover have "\<forall>k. Suc k < length ?chunks \<longrightarrow> length (?chunks ! k) = chunk_size"
    using slices_full[OF assms(1)] by blast
  moreover have "length (last ?chunks) =
                (if length encrypted mod chunk_size = 0 then chunk_size
                 else length encrypted mod chunk_size)"
    using last_slices[OF assms(1,2)] by simp
  ultimately show "\<exists>chunks. calls bus' = calls bus @ map (Pair 1) chunks
            \<and> concat chunks = encrypted
            \<and> (\<forall>c\<in>set chunks. 0 < length c \<and> length c \<le> chunk_size)
            \<and> length chunks = (length encrypted + chunk_size - 1) div chunk_size
            \<and> (\<forall>k<length chunks. chunks ! k = take chunk_size (drop (k * chunk_size) encrypted))
            \<and> (\<forall>k. Suc k < length chunks \<longrightarrow> length (chunks ! k) = chunk_size)
            \<and> length (last chunks) =
                (if length encrypted mod chunk_size = 0 then chunk_size
                 else length encrypted mod chunk_size)"
    by blast
next
  show "sent = length encrypted" using send_loop_success(2)[OF assms(1,3)] .
next
  show "device self \<noteq> None \<longrightarrow> length framebuffer = 327680 \<longrightarrow>
            fst (send_frame self bus framebuffer) = Inr () \<longrightarrow>
            (\<exists>enc chunks. encrypt_framebuffer framebuffer = Inr enc
               \<and> calls (snd (send_frame self bus framebuffer)) =
                   calls bus @ (1, FRAME_HEADER) # map (Pair 1) chunks
               \<and> concat chunks = enc \<and> length chunks = 20
               \<and> (\<forall>c\<in>set chunks. length c = 16384))"
  proof (intro impI)
    assume d: "device self \<noteq> None" and l: "length framebuffer = 327680"
      and ok: "fst (send_frame self bus framebuffer) = Inr ()"
    obtain enc where enc: "encrypt_framebuffer framebuffer = Inr enc" "length enc = length framebuffer"
      using encrypt_framebuffer_result[of framebuffer] by blast
    have "calls (snd (send_frame self bus framebuffer)) =
            calls bus @ (1, FRAME_HEADER) # map (Pair 1) (slices CHUNK_SIZE enc 0)"
      using send_frame_calls_success[OF d enc(1) ok] by simp
    moreover have "concat (slices CHUNK_SIZE enc 0) = enc"
      using concat_slices[OF CHUNK_SIZE_pos, of enc 0] by simp
    moreover have "length (slices CHUNK_SIZE enc 0) = 20"
      "\<forall>c\<in>set (slices CHUNK_SIZE enc 0). length c = 16384"
      using slices_327680[of enc] enc(2) l by simp_all
    ultimately show "\<exists>enc chunks. encrypt_framebuffer framebuffer = Inr enc
               \<and> calls (snd (send_frame self bus framebuffer)) =
                   calls bus @ (1, FRAME_HEADER) # map (Pair 1) chunks
               \<and> concat chunks = enc \<and> length chunks = 20
               \<and> (\<forall>c\<in>set chunks. length c = 16384)"
      using enc(1) by blast
  qed
qed


theorem send_frame_chunking_witness:
  "0 < (2::nat) \<and> 0 < length [1, 2, 3, 4, 5 :: byte]
   \<and> send_loop 2 [1, 2, 3, 4, 5]  0
         \<lparr>attached = True, config_failure = None, respond = (\<lambda>log. None), calls = []\<rparr> 0
       = (Inr 5, \<lparr>attached = True, config_failure = None, respond = (\<lambda>log. None),
                  calls = [(1, [1, 2]), (1, [3, 4]), (1, [5])]\<rparr>)
   \<and> (\<exists>chunks. [(1, [1, 2]), (1, [3, 4]), (1, [5 :: byte])] = map (Pair (1::nat)) chunks
          \<and> concat chunks = [1, 2, 3, 4, 5] \<and> length chunks = 3 \<and> length (last chunks) = 1)
   \<and> device \<lparr>device = Some (), debug = False\<rparr> \<noteq> None
   \<and> length (replicate 327680 (0 :: byte)) = 327680
   \<and> fst (send_frame \<lparr>device = Some (), debug = False\<rparr>
         \<lparr>attached = True, config_failure = None, respond = (\<lambda>log. None), calls = []\<rparr>
         (replicate 327680 0)) = Inr ()
   \<and> length (calls (snd (send_frame \<lparr>device = Some (), debug = False\<rparr>
         \<lparr>attached = True, config_failure = None, respond = (\<lambda>log. None), calls = []\<rparr>
         (replicate 327680 0)))) = 21"
proof -
  let ?B = "\<lparr>attached = True, config_failure = None, respond = (\<lambda>log. None), calls = []\<rparr>"
  let ?B' = "\<lparr>attached = True, config_failure = None, respond = (\<lambda>log. None),
                  calls = [(1, [1, 2]), (1, [3, 4]), (1, [5 :: byte])]\<rparr>"
  let ?D = "\<lparr>device = Some (), debug = False\<rparr>"
  let ?fb = "replicate 327680 (0 :: byte)"
  have h1: "0 < (2::nat)" by simp
  have h2: "0 < length [1, 2, 3, 4, 5 :: byte]" by simp
  have h3: "send_loop 2 [1, 2, 3, 4, 5] 0 ?B 0 = (Inr 5, ?B')"
    by (simp add: send_loop.simps device_write_def)
  have h4: "device ?D \<noteq> None" by simp
  have h5: "length ?fb = 327680" by simp
  have h6: "fst (send_frame ?D ?B ?fb) = Inr ()"
    by (rule send_frame_accepts) simp_all
  note T = send_frame_chunking[OF h1 h2 h3, of ?D ?fb]
  from T obtain cs :: "bytes list" where
    c: "calls ?B' = calls ?B @ map (Pair 1) cs" "concat cs = [1, 2, 3, 4, 5]"
      "length cs = (length [1, 2, 3, 4, 5 :: byte] + 2 - 1) div 2"
      "length (last cs) = (if length [1, 2, 3, 4, 5 :: byte] mod 2 = 0 then 2
                           else length [1, 2, 3, 4, 5 :: byte] mod 2)"
    by (elim conjE exE) blast
  have "[(1, [1, 2]), (1, [3, 4]), (1, [5 :: byte])] = map (Pair (1::nat)) cs
          \<and> concat cs = [1, 2, 3, 4, 5] \<and> length cs = 3 \<and> length (last cs) = 1"
    using c by simp
  then have a: "\<exists>chunks. [(1, [1, 2]), (1, [3, 4]), (1, [5 :: byte])] = map (Pair (1::nat)) chunks
          \<and> concat chunks = [1, 2, 3, 4, 5] \<and> length chunks = 3 \<and> length (last chunks) = 1"
    by (rule exI)
  from T h4 h5 h6 obtain chunks :: "bytes list" where
    "calls (snd (send_frame ?D ?B ?fb)) = calls ?B @ (1, FRAME_HEADER) # map (Pair 1) chunks"
    "length chunks = 20"
    by blast
  then have b: "length (calls (snd (send_frame ?D ?B ?fb))) = 21" by simp
  show ?thesis using h1 h2 h3 h4 h5 h6 a b by (intro conjI)
qed

text \<open>
  C9. With no device handle (\<open>device self = None\<close>, as after \<open>init\<close>, or after a
  \<open>connect\<close> that found no device) \<open>send_frame\<close> raises
  \<^verbatim>\<open>RuntimeError("Device not connected. Call connect() first.")\<close> and leaves the bus
  as it was: no write, not even of the header, is attempted.
\<close>

theorem send_frame_not_connected:
  assumes "device self = None"
  shows "send_frame self bus framebuffer =
           (Inl (RuntimeError ''Device not connected. Call connect() first.''), bus)
       \<and> send_frame (init dbg) bus framebuffer =
           (Inl (RuntimeError ''Device not connected. Call connect() first.''), bus)
       \<and> (\<not> attached bus \<longrightarrow>
            send_frame (snd (connect other bus)) bus framebuffer =
              (Inl (RuntimeError ''Device not connected. Call connect() first.''), bus))"
  using assms by (simp add: send_frame_def init_def connect_def Let_def)

theorem send_frame_not_connected_witness:
  "device \<lparr>device = None, debug = True\<rparr> = None
   \<and> \<not> attached \<lparr>attached = False, config_failure = None, respond = (\<lambda>log. None), calls = []\<rparr>
   \<and> send_frame \<lparr>device = None, debug = True\<rparr>
         \<lparr>attached = False, config_failure = None, respond = (\<lambda>log. None), calls = []\<rparr>
         [0x12, 0x34]
       = (Inl (RuntimeError ''Device not connected. Call connect() first.''),
          \<lparr>attached = False, config_failure = None, respond = (\<lambda>log. None), calls = []\<rparr>)
   \<and> calls (snd (send_frame (snd (connect \<lparr>device = Some (), debug = False\<rparr>
              \<lparr>attached = False, config_failure = None, respond = (\<lambda>log. None), calls = []\<rparr>))
         \<lparr>attached = False, config_failure = None, respond = (\<lambda>log. None), calls = []\<rparr>
         [0x12, 0x34])) = []"
  using send_frame_not_connected[of "\<lparr>device = None, debug = True\<rparr>"
      "\<lparr>attached = False, config_failure = None, respond = (\<lambda>log. None), calls = []\<rparr>"
      "[0x12, 0x34]" True "\<lparr>device = Some (), debug = False\<rparr>"]
  by simp

text \<open>
  C3. With a device handle, the first write \<open>send_frame\<close> attempts is always the
  16-byte header \<open>FF CC AA 88\<close> followed by twelve zero bytes, to endpoint 1. If that
  write raises, \<open>send_frame\<close> raises the same exception and no payload write has been
  attempted. If \<open>send_frame\<close> returns, it has written the header once and then the
  chunks \<open>take CHUNK_SIZE (drop (k * CHUNK_SIZE) enc)\<close> of the obfuscated framebuffer
  for \<open>k = 0, 1, \<dots>\<close> in this order, one write each. For a framebuffer of 327,680
  bytes these are 21 writes, the 20 after the header summing to 327,680 bytes.
\<close>

theorem send_frame_write_order:
  assumes "device self \<noteq> None"
  shows "take (Suc (length (calls bus))) (calls (snd (send_frame self bus fb)))
           = calls bus @ [(1, [0xFF, 0xCC, 0xAA, 0x88, 0, 0, 0, 0, 0, 0, 0, 0, 0, 0, 0, 0])]
       \<and> (respond bus (calls bus @ [(1, [0xFF, 0xCC, 0xAA, 0x88, 0, 0, 0, 0, 0, 0, 0, 0, 0, 0, 0, 0])])
              = Some e \<longrightarrow>
            send_frame self bus fb =
              (Inl e, bus\<lparr>calls := calls bus @
                 [(1, [0xFF, 0xCC, 0xAA, 0x88, 0, 0, 0, 0, 0, 0, 0, 0, 0, 0, 0, 0])]\<rparr>))
       \<and> (fst (send_frame self bus fb) = Inr () \<longrightarrow>
            (\<exists>enc. encrypt_framebuffer fb = Inr enc \<and> length enc = length fb \<and>
               calls (snd (send_frame self bus fb)) =
                 calls bus @ (1, [0xFF, 0xCC, 0xAA, 0x88, 0, 0, 0, 0, 0, 0, 0, 0, 0, 0, 0, 0]) #
                   map (\<lambda>k. (1, take CHUNK_SIZE (drop (k * CHUNK_SIZE) enc)))
                     [0..<(length fb + CHUNK_SIZE - 1) div CHUNK_SIZE]))
       \<and> (fst (send_frame self bus fb) = Inr () \<longrightarrow> length fb = 327680 \<longrightarrow>
            length (calls (snd (send_frame self bus fb))) = length (calls bus) + 21
            \<and> sum_list (map (\<lambda>w. length (snd w))
                 (drop (Suc (length (calls bus))) (calls (snd (send_frame self bus fb)))))
               = 327680)"
proof (intro conjI impI)
  show "take (Suc (length (calls bus))) (calls (snd (send_frame self bus fb)))
           = calls bus @ [(1, [0xFF, 0xCC, 0xAA, 0x88, 0, 0, 0, 0, 0, 0, 0, 0, 0, 0, 0, 0])]"
    using send_frame_header_first[OF assms, of bus fb] by (simp only: FRAME_HEADER_bytes)
next
  assume "respond bus (calls bus @ [(1, [0xFF, 0xCC, 0xAA, 0x88, 0, 0, 0, 0, 0, 0, 0, 0, 0, 0, 0, 0])])
              = Some e"
  then have "respond bus (calls bus @ [(1, FRAME_HEADER)]) = Some e"
    by (simp only: FRAME_HEADER_bytes)
  from send_frame_header_failure[OF assms this, of fb]
  show "send_frame self bus fb =
              (Inl e, bus\<lparr>calls := calls bus @
                 [(1, [0xFF, 0xCC, 0xAA, 0x88, 0, 0, 0, 0, 0, 0, 0, 0, 0, 0, 0, 0])]\<rparr>)"
    by (simp only: FRAME_HEADER_bytes)
next
  assume "fst (send_frame self bus fb) = Inr ()"
  from send_frame_success_calls[OF assms this]
  show "\<exists>enc. encrypt_framebuffer fb = Inr enc \<and> length enc = length fb \<and>
               calls (snd (send_frame self bus fb)) =
                 calls bus @ (1, [0xFF, 0xCC, 0xAA, 0x88, 0, 0, 0, 0, 0, 0, 0, 0, 0, 0, 0, 0]) #
                   map (\<lambda>k. (1, take CHUNK_SIZE (drop (k * CHUNK_SIZE) enc)))
                     [0..<(length fb + CHUNK_SIZE - 1) div CHUNK_SIZE]"
    by (simp only: FRAME_HEADER_bytes)
next
  assume "fst (send_frame self bus fb) = Inr ()" "length fb = 327680"
  then show "length (calls (snd (send_frame self bus fb))) = length (calls bus) + 21"
    using send_frame_327680(1)[OF assms] by simp
next
  assume "fst (send_frame self bus fb) = Inr ()" "length fb = 327680"
  then show "sum_list (map (\<lambda>w. length (snd w))
                 (drop (Suc (length (calls bus))) (calls (snd (send_frame self bus fb)))))
               = 327680"
    using send_frame_327680(2)[OF assms] by simp
qed

theorem send_frame_write_order_witness:
  "device \<lparr>device = Some (), debug = False\<rparr> \<noteq> None
   \<and> respond \<lparr>attached = True, config_failure = None,
               respond = (\<lambda>log. if length log = 1 then Some (USBError ''stall'') else None),
               calls = []\<rparr>
        ([] @ [(1, [0xFF, 0xCC, 0xAA, 0x88, 0, 0, 0, 0, 0, 0, 0, 0, 0, 0, 0, 0])])
       = Some (USBError ''stall'')
   \<and> send_frame \<lparr>device = Some (), debug = False\<rparr>
        \<lparr>attached = True, config_failure = None,
         respond = (\<lambda>log. if length log = 1 then Some (USBError ''stall'') else None),
         calls = []\<rparr> [0x00, 0xFF, 0x12]
       = (Inl (USBError ''stall''),
          \<lparr>attached = True, config_failure = None,
           respond = (\<lambda>log. if length log = 1 then Some (USBError ''stall'') else None),
           calls = [(1, [0xFF, 0xCC, 0xAA, 0x88, 0, 0, 0, 0, 0, 0, 0, 0, 0, 0, 0, 0])]\<rparr>)
   \<and> fst (send_frame \<lparr>device = Some (), debug = False\<rparr>
         \<lparr>attached = True, config_failure = None, respond = (\<lambda>log. None), calls = []\<rparr>
         (replicate 327680 0)) = Inr ()
   \<and> length (replicate 327680 (0 :: byte)) = 327680
   \<and> length (calls (snd (send_frame \<lparr>device = Some (), debug = False\<rparr>
         \<lparr>attached = True, config_failure = None, respond = (\<lambda>log. None), calls = []\<rparr>
         (replicate 327680 0)))) = 21
   \<and> take 1 (calls (snd (send_frame \<lparr>device = Some (), debug = False\<rparr>
         \<lparr>attached = True, config_failure = None, respond = (\<lambda>log. None), calls = []\<rparr>
         (replicate 327680 0))))
       = [(1, [0xFF, 0xCC, 0xAA, 0x88, 0, 0, 0, 0, 0, 0, 0, 0, 0, 0, 0, 0])]"
proof -
  let ?D = "\<lparr>device = Some (), debug = False\<rparr>"
  let ?F = "\<lparr>attached = True, config_failure = None,
               respond = (\<lambda>log. if length log = 1 then Some (USBError ''stall'') else None),
               calls = []\<rparr>"
  let ?B = "\<lparr>attached = True, config_failure = None, respond = (\<lambda>log. None), calls = []\<rparr>"
  let ?fb = "replicate 327680 (0 :: byte)"
  have h1: "device ?D \<noteq> None" by simp
  have h2: "respond ?F ([] @ [(1, [0xFF, 0xCC, 0xAA, 0x88, 0, 0, 0, 0, 0, 0, 0, 0, 0, 0, 0, 0])])
       = Some (USBError ''stall'')" by simp
  have h3: "fst (send_frame ?D ?B ?fb) = Inr ()"
    by (rule send_frame_accepts) simp_all
  have h4: "length ?fb = 327680" by simp
  have a: "send_frame ?D ?F [0x00, 0xFF, 0x12]
       = (Inl (USBError ''stall''),
          \<lparr>attached = True, config_failure = None,
           respond = (\<lambda>log. if length log = 1 then Some (USBError ''stall'') else None),
           calls = [(1, [0xFF, 0xCC, 0xAA, 0x88, 0, 0, 0, 0, 0, 0, 0, 0, 0, 0, 0, 0])]\<rparr>)"
    using send_frame_write_order[OF h1, of ?F "[0x00, 0xFF, 0x12]" "USBError ''stall''"] h2
    by simp
  have b: "length (calls (snd (send_frame ?D ?B ?fb))) = 21"
    using send_frame_write_order[OF h1, of ?B ?fb] h3 h4 by simp
  have c: "take 1 (calls (snd (send_frame ?D ?B ?fb)))
       = [(1, [0xFF, 0xCC, 0xAA, 0x88, 0, 0, 0, 0, 0, 0, 0, 0, 0, 0, 0, 0])]"
    using send_frame_write_order[OF h1, of ?B ?fb] by simp
  show ?thesis using h1 h2 a h3 h4 b c by (intro conjI)
qed

text \<open>
  C5. \<open>encrypt_framebuffer\<close> never raises, keeps the length, and maps the byte at
  index \<open>i\<close> of the framebuffer to that byte XOR \<open>key ! (i mod 4)\<close> for the key
  \<open>E7 F3 E7 FF\<close>. The header goes to the transport as it is, before and apart from
  the obfuscation: the first write is the plain header, and the payload writes of a
  frame that was sent are, concatenated, exactly \<open>encrypt_framebuffer framebuffer\<close>, so
  index 0 of the transform is the first byte of the framebuffer.
\<close>

theorem encrypt_framebuffer_xor:
  "(\<exists>out. encrypt_framebuffer fb = Inr out \<and> length out = length fb \<and>
      (\<forall>i<length fb. out ! i = (fb ! i) XOR ([0xE7, 0xF3, 0xE7, 0xFF] ! (i mod 4))))
   \<and> (device self \<noteq> None \<longrightarrow>
        take (Suc (length (calls bus))) (calls (snd (send_frame self bus fb)))
          = calls bus @ [(1, [0xFF, 0xCC, 0xAA, 0x88, 0, 0, 0, 0, 0, 0, 0, 0, 0, 0, 0, 0])])
   \<and> (device self \<noteq> None \<longrightarrow> fst (send_frame self bus fb) = Inr () \<longrightarrow>
        encrypt_framebuffer fb =
          Inr (concat (map snd (drop (Suc (length (calls bus)))
                                  (calls (snd (send_frame self bus fb)))))))"
proof (intro conjI impI)
  show "\<exists>out. encrypt_framebuffer fb = Inr out \<and> length out = length fb \<and>
      (\<forall>i<length fb. out ! i = (fb ! i) XOR ([0xE7, 0xF3, 0xE7, 0xFF] ! (i mod 4)))"
    using encrypt_framebuffer_result[of fb] by (simp only: XOR_PATTERN_def)
next
  assume "device self \<noteq> None"
  from send_frame_header_first[OF this, of bus fb]
  show "take (Suc (length (calls bus))) (calls (snd (send_frame self bus fb)))
          = calls bus @ [(1, [0xFF, 0xCC, 0xAA, 0x88, 0, 0, 0, 0, 0, 0, 0, 0, 0, 0, 0, 0])]"
    by (simp only: FRAME_HEADER_bytes)
next
  assume "device self \<noteq> None" "fst (send_frame self bus fb) = Inr ()"
  then show "encrypt_framebuffer fb =
          Inr (concat (map snd (drop (Suc (length (calls bus)))
                                  (calls (snd (send_frame self bus fb))))))"
    by (rule send_frame_payload)
qed

theorem encrypt_framebuffer_xor_witness:
  "encrypt_framebuffer [0x00, 0xFF, 0x12, 0x34, 0x56] = Inr [0xE7, 0x0C, 0xF5, 0xCB, 0xB1]
   \<and> device \<lparr>device = Some (), debug = False\<rparr> \<noteq> None
   \<and> send_frame \<lparr>device = Some (), debug = False\<rparr>
        \<lparr>attached = True, config_failure = None, respond = (\<lambda>log. None), calls = []\<rparr>
        [0x00, 0xFF, 0x12, 0x34, 0x56]
       = (Inr (),
          \<lparr>attached = True, config_failure = None, respond = (\<lambda>log. None),
           calls = [(1, [0xFF, 0xCC, 0xAA, 0x88, 0, 0, 0, 0, 0, 0, 0, 0, 0, 0, 0, 0]),
                    (1, [0xE7, 0x0C, 0xF5, 0xCB, 0xB1])]\<rparr>)"
proof -
  let ?D = "\<lparr>device = Some (), debug = False\<rparr>"
  let ?B = "\<lparr>attached = True, config_failure = None, respond = (\<lambda>log. None), calls = []\<rparr>"
  let ?fb = "[0x00, 0xFF, 0x12, 0x34, 0x56 :: byte]"
  have e: "encrypt_framebuffer ?fb = Inr [0xE7, 0x0C, 0xF5, 0xCB, 0xB1]"
    by (simp add: encrypt_framebuffer_def XOR_PATTERN_def xor_loop.simps)
  have h1: "device ?D \<noteq> None" by simp
  have s: "send_frame ?D ?B ?fb
       = (Inr (),
          \<lparr>attached = True, config_failure = None, respond = (\<lambda>log. None),
           calls = [(1, [0xFF, 0xCC, 0xAA, 0x88, 0, 0, 0, 0, 0, 0, 0, 0, 0, 0, 0, 0]),
                    (1, [0xE7, 0x0C, 0xF5, 0xCB, 0xB1])]\<rparr>)"
    by (simp add: send_frame_def e device_write_def send_loop.simps CHUNK_SIZE_def FRAME_HEADER_def)
  have "encrypt_framebuffer ?fb =
          Inr (concat (map snd (drop (Suc (length (calls ?B)))
                                  (calls (snd (send_frame ?D ?B ?fb))))))"
    using encrypt_framebuffer_xor[of ?fb ?D ?B] h1 s by simp
  then show ?thesis using e h1 s by (intro conjI)
qed

text \<open>
  C2, as the code has it. Let \<open>writes\<close> be the header followed by the chunks of the
  obfuscated framebuffer. If the header and the chunks before chunk \<open>k\<close> are written and
  the write of chunk \<open>k\<close> raises \<open>e\<close>, then \<open>send_frame\<close> raises \<open>e\<close> itself, the
  exception of the transport, unchanged: nothing is wrapped around it, and neither the
  failing stage nor a byte count travels with it. The writes attempted are the header and
  the chunks \<open>0, \<dots>, k\<close> and no other, so no chunk after \<open>k\<close> is attempted. The \<open>k\<close>
  chunks written before the failing one hold \<open>k * CHUNK_SIZE\<close> bytes; the code keeps this
  count in the local \<^verbatim>\<open>bytes_sent\<close>, which is lost when the exception leaves the loop.
  The counterexample runs the spec's scenario (the fifth chunk write fails) and a second
  one (the first chunk write fails) on a 327,680-byte framebuffer: both calls raise the
  same value, so the failure cannot tell the stage or the bytes sent.
\<close>

theorem send_frame_chunk_failure:
  assumes "device self \<noteq> None"
    and "encrypt_framebuffer fb = Inr enc"
    and "writes = (1, FRAME_HEADER) #
           map (\<lambda>j. (1, take CHUNK_SIZE (drop (j * CHUNK_SIZE) enc)))
             [0..<(length fb + CHUNK_SIZE - 1) div CHUNK_SIZE]"
    and "k < (length fb + CHUNK_SIZE - 1) div CHUNK_SIZE"
    and "\<forall>j\<le>k. respond bus (calls bus @ take (Suc j) writes) = None"
    and "respond bus (calls bus @ take (Suc (Suc k)) writes) = Some e"
  shows "send_frame self bus fb =
           (Inl e, bus\<lparr>calls := calls bus @ take (Suc (Suc k)) writes\<rparr>)
       \<and> length (calls (snd (send_frame self bus fb))) = length (calls bus) + k + 2
       \<and> sum_list (map (\<lambda>w. length (snd w)) (take k (drop 1 writes))) = k * CHUNK_SIZE"
proof -
  have len: "length enc = length fb"
    using encrypt_framebuffer_result[of fb] assms(2) by auto
  have cnt: "length (slices CHUNK_SIZE enc 0) = (length fb + CHUNK_SIZE - 1) div CHUNK_SIZE"
    using length_slices[OF CHUNK_SIZE_pos, of enc 0] len by simp
  have W: "writes = (1, FRAME_HEADER) # map (Pair 1) (slices CHUNK_SIZE enc 0)"
    by (simp only: assms(3) slices_eq_map[OF CHUNK_SIZE_pos] len map_map comp_def)
  have k: "k < length (slices CHUNK_SIZE enc 0)" using assms(4) cnt by simp
  have r: "send_frame self bus fb =
           (Inl e, bus\<lparr>calls := calls bus @ take (Suc (Suc k)) writes\<rparr>)"
    unfolding W
  proof (rule send_frame_fail[OF assms(1,2)])
    show "Suc k < Suc (length (slices CHUNK_SIZE enc 0))" using k by simp
    show "respond bus (calls bus @ take (Suc (Suc k))
           ((1, FRAME_HEADER) # map (Pair 1) (slices CHUNK_SIZE enc 0))) = Some e"
      using assms(6) unfolding W .
    fix j' assume "j' < Suc k"
    then have "j' \<le> k" by simp
    then show "respond bus (calls bus @ take (Suc j')
           ((1, FRAME_HEADER) # map (Pair 1) (slices CHUNK_SIZE enc 0))) = None"
      using assms(5) unfolding W by blast
  qed
  have l: "length (calls (snd (send_frame self bus fb))) = length (calls bus) + k + 2"
    using k by (simp add: r W)
  have "sum_list (map (\<lambda>w. length (snd w)) (take k (drop 1 writes)))
      = sum_list (map length (take k (slices CHUNK_SIZE enc 0)))"
    by (simp add: W take_map comp_def)
  also have "\<dots> = k * CHUNK_SIZE" by (rule slices_prefix_bytes[OF CHUNK_SIZE_pos k])
  finally show ?thesis using r l by simp
qed

theorem send_frame_chunk_failure_witness:
  "device \<lparr>device = Some (), debug = False\<rparr> \<noteq> None
   \<and> encrypt_framebuffer [0x00, 0xFF, 0x12, 0x34, 0x56] = Inr [0xE7, 0x0C, 0xF5, 0xCB, 0xB1]
   \<and> (0::nat) < (length [0x00, 0xFF, 0x12, 0x34, 0x56 :: byte] + CHUNK_SIZE - 1) div CHUNK_SIZE
   \<and> respond \<lparr>attached = True, config_failure = None,
         respond = (\<lambda>log. if length log = 2 then Some (USBError ''timeout'') else None),
         calls = []\<rparr>
        ([] @ take (Suc 0) [(1, FRAME_HEADER), (1, [0xE7, 0x0C, 0xF5, 0xCB, 0xB1])]) = None
   \<and> respond \<lparr>attached = True, config_failure = None,
         respond = (\<lambda>log. if length log = 2 then Some (USBError ''timeout'') else None),
         calls = []\<rparr>
        ([] @ take (Suc (Suc 0)) [(1, FRAME_HEADER), (1, [0xE7, 0x0C, 0xF5, 0xCB, 0xB1])])
       = Some (USBError ''timeout'')
   \<and> send_frame \<lparr>device = Some (), debug = False\<rparr>
        \<lparr>attached = True, config_failure = None,
         respond = (\<lambda>log. if length log = 2 then Some (USBError ''timeout'') else None),
         calls = []\<rparr> [0x00, 0xFF, 0x12, 0x34, 0x56]
       = (Inl (USBError ''timeout''),
          \<lparr>attached = True, config_failure = None,
           respond = (\<lambda>log. if length log = 2 then Some (USBError ''timeout'') else None),
           calls = [(1, FRAME_HEADER), (1, [0xE7, 0x0C, 0xF5, 0xCB, 0xB1])]\<rparr>)"
proof -
  let ?D = "\<lparr>device = Some (), debug = False\<rparr>"
  let ?F = "\<lparr>attached = True, config_failure = None,
         respond = (\<lambda>log. if length log = 2 then Some (USBError ''timeout'') else None),
         calls = []\<rparr>"
  let ?fb = "[0x00, 0xFF, 0x12, 0x34, 0x56 :: byte]"
  let ?enc = "[0xE7, 0x0C, 0xF5, 0xCB, 0xB1 :: byte]"
  let ?W = "[(1::nat, FRAME_HEADER), (1, ?enc)]"
  have h1: "device ?D \<noteq> None" by simp
  have h2: "encrypt_framebuffer ?fb = Inr ?enc"
    by (simp add: encrypt_framebuffer_def XOR_PATTERN_def xor_loop.simps)
  have n: "(length ?fb + CHUNK_SIZE - 1) div CHUNK_SIZE = 1" by (simp add: CHUNK_SIZE_def)
  have h3: "?W = (1, FRAME_HEADER) #
           map (\<lambda>j. (1, take CHUNK_SIZE (drop (j * CHUNK_SIZE) ?enc)))
             [0..<(length ?fb + CHUNK_SIZE - 1) div CHUNK_SIZE]"
    unfolding n by (simp add: CHUNK_SIZE_def)
  have h4: "(0::nat) < (length ?fb + CHUNK_SIZE - 1) div CHUNK_SIZE" unfolding n by simp
  have h5: "\<forall>j\<le>0. respond ?F (calls ?F @ take (Suc j) ?W) = None" by simp
  have h6: "respond ?F (calls ?F @ take (Suc (Suc 0)) ?W) = Some (USBError ''timeout'')" by simp
  have c: "send_frame ?D ?F ?fb =
      (Inl (USBError ''timeout''), ?F\<lparr>calls := calls ?F @ take (Suc (Suc 0)) ?W\<rparr>)"
    using send_frame_chunk_failure[OF h1 h2 h3 h4 h5 h6] by (rule conjunct1)
  have a: "respond ?F ([] @ take (Suc 0) ?W) = None" by simp
  have b: "respond ?F ([] @ take (Suc (Suc 0)) ?W) = Some (USBError ''timeout'')" by simp
  have c': "send_frame ?D ?F ?fb = (Inl (USBError ''timeout''),
          \<lparr>attached = True, config_failure = None,
           respond = (\<lambda>log. if length log = 2 then Some (USBError ''timeout'') else None),
           calls = ?W\<rparr>)"
    using c by simp
  show ?thesis using h1 h2 h4 a b c' by (intro conjI)
qed

theorem send_frame_failure_stage_counterexample:
  "fst (send_frame \<lparr>device = Some (), debug = False\<rparr>
         \<lparr>attached = True, config_failure = None,
          respond = (\<lambda>log. if length log = 6 then Some (USBError ''timeout'') else None),
          calls = []\<rparr> (replicate 327680 0))
     = Inl (USBError ''timeout'')
   \<and> length (calls (snd (send_frame \<lparr>device = Some (), debug = False\<rparr>
         \<lparr>attached = True, config_failure = None,
          respond = (\<lambda>log. if length log = 6 then Some (USBError ''timeout'') else None),
          calls = []\<rparr> (replicate 327680 0)))) = 6
   \<and> fst (send_frame \<lparr>device = Some (), debug = False\<rparr>
         \<lparr>attached = True, config_failure = None,
          respond = (\<lambda>log. if length log = 2 then Some (USBError ''timeout'') else None),
          calls = []\<rparr> (replicate 327680 0))
     = Inl (USBError ''timeout'')
   \<and> length (calls (snd (send_frame \<lparr>device = Some (), debug = False\<rparr>
         \<lparr>attached = True, config_failure = None,
          respond = (\<lambda>log. if length log = 2 then Some (USBError ''timeout'') else None),
          calls = []\<rparr> (replicate 327680 0)))) = 2"
proof -
  let ?D = "\<lparr>device = Some (), debug = False\<rparr>"
  let ?fb = "replicate 327680 (0 :: byte)"
  obtain enc where enc: "encrypt_framebuffer ?fb = Inr enc" "length enc = length ?fb"
    using encrypt_framebuffer_result[of ?fb] by blast
  have l: "length (slices CHUNK_SIZE enc 0) = 20"
    using slices_327680(1)[of enc] enc(2) by simp
  have d: "device ?D \<noteq> None" by simp
  have run: "\<And>n. 0 < n \<Longrightarrow> n \<le> 21 \<Longrightarrow>
    send_frame ?D \<lparr>attached = True, config_failure = None,
          respond = (\<lambda>log. if length log = n then Some (USBError ''timeout'') else None),
          calls = []\<rparr> ?fb =
      (Inl (USBError ''timeout''),
       \<lparr>attached = True, config_failure = None,
          respond = (\<lambda>log. if length log = n then Some (USBError ''timeout'') else None),
          calls = take n ((1, FRAME_HEADER) # map (Pair 1) (slices CHUNK_SIZE enc 0))\<rparr>)"
  proof -
    fix n :: nat assume n: "0 < n" "n \<le> 21"
    let ?F = "\<lparr>attached = True, config_failure = None,
          respond = (\<lambda>log. if length log = n then Some (USBError ''timeout'') else None),
          calls = []\<rparr>"
    have "send_frame ?D ?F ?fb = (Inl (USBError ''timeout''),
       ?F\<lparr>calls := calls ?F @ take (Suc (n - 1))
              ((1, FRAME_HEADER) # map (Pair 1) (slices CHUNK_SIZE enc 0))\<rparr>)"
    proof (rule send_frame_fail[OF d enc(1)])
      show "n - 1 < Suc (length (slices CHUNK_SIZE enc 0))" using n l by simp
      show "respond ?F (calls ?F @ take (Suc (n - 1))
           ((1, FRAME_HEADER) # map (Pair 1) (slices CHUNK_SIZE enc 0))) = Some (USBError ''timeout'')"
        using n l by (simp add: min_def)
      fix j' assume "j' < n - 1"
      then have "min (Suc j') 21 \<noteq> n" using n by arith
      then show "respond ?F (calls ?F @ take (Suc j')
           ((1, FRAME_HEADER) # map (Pair 1) (slices CHUNK_SIZE enc 0))) = None"
        using l by simp
    qed
    then show "send_frame ?D ?F ?fb = (Inl (USBError ''timeout''),
       \<lparr>attached = True, config_failure = None,
          respond = (\<lambda>log. if length log = n then Some (USBError ''timeout'') else None),
          calls = take n ((1, FRAME_HEADER) # map (Pair 1) (slices CHUNK_SIZE enc 0))\<rparr>)"
      using n by simp
  qed
  have r6: "0 < (6::nat)" "(6::nat) \<le> 21" and r2: "0 < (2::nat)" "(2::nat) \<le> 21" by simp_all
  have lw: "length ((1::nat, FRAME_HEADER) # map (Pair 1) (slices CHUNK_SIZE enc 0)) = 21"
    using l by simp
  show ?thesis
    by (simp only: run[OF r6] run[OF r2] fst_conv snd_conv usb_bus.simps length_take lw) simp
qed

text \<open>
  C4. For an image addressable on \<open>[0, width) \<times> [0, height)\<close> the framebuffer loops
  never raise and return the concatenation, for \<open>y = 0, \<dots>, height - 1\<close>, of the
  \<open>width\<close> pixels of row \<open>y\<close>, each as the two bytes of its RGB565 value, low
  byte first, followed by \<open>padding\<close> zero bytes; the length is
  \<open>height * (width * 2 + padding)\<close>. \<open>prepare_image\<close> runs the loops at
  \<open>960 \<times> 160\<close> with 128 padding bytes on the resized image, so whenever the image
  opens its result is this concatenation over the pixels of the resized image, and has
  \<open>160 * (960 * 2 + 128) = 327680\<close> bytes, whatever the pixels.
\<close>

theorem build_framebuffer_layout:
  assumes "width \<le> fst (img_size img)" "height \<le> snd (img_size img)"
  shows "build_framebuffer img width height padding =
           Inr (concat (map (\<lambda>y. concat (map (\<lambda>x. rgb565_le (pixel img (x, y))) [0..<width])
                                  @ replicate padding 0) [0..<height]))
       \<and> (\<exists>fb. build_framebuffer img width height padding = Inr fb
              \<and> length fb = height * (width * 2 + padding))
       \<and> (\<exists>lo hi. rgb565_le (r, g, b) = [lo, hi]
              \<and> uint lo + 256 * uint hi = rgb888_to_rgb565 r g b)
       \<and> (Image_open lib image_path = Inr img0 \<longrightarrow>
            (\<exists>fb. prepare_image lib image_path = Inr fb
               \<and> length fb = DISPLAY_HEIGHT * (DISPLAY_WIDTH * 2 + LINE_PADDING)
               \<and> length fb = 327680))
       \<and> (Image_open lib image_path = Inr img0 \<longrightarrow>
            prepare_image lib image_path =
              Inr (concat (map (\<lambda>y. concat (map (\<lambda>x. rgb565_le
                                          (resample lib img0 (960, 160) (x, y))) [0..<960])
                                     @ replicate 128 0) [0..<160])))"
proof (intro conjI impI)
  show r: "build_framebuffer img width height padding =
           Inr (concat (map (\<lambda>y. concat (map (\<lambda>x. rgb565_le (pixel img (x, y))) [0..<width])
                                  @ replicate padding 0) [0..<height]))"
    using assms by (rule build_framebuffer_result)
  have "length (concat (map (\<lambda>y. concat (map (\<lambda>x. rgb565_le (pixel img (x, y))) [0..<width])
                                  @ replicate padding 0) [0..<height]))
        = height * (width * 2 + padding)"
    using length_rows[of "\<lambda>x y. pixel img (x, y)" width padding "[0..<height]"] by simp
  then show "\<exists>fb. build_framebuffer img width height padding = Inr fb
              \<and> length fb = height * (width * 2 + padding)"
    using r by blast
next
  show "\<exists>lo hi. rgb565_le (r, g, b) = [lo, hi]
              \<and> uint lo + 256 * uint hi = rgb888_to_rgb565 r g b"
    by (rule rgb565_le_value)
next
  assume "Image_open lib image_path = Inr img0"
  from prepare_image_total[OF this] obtain fb where
    "prepare_image lib image_path = Inr fb" "length fb = 327680" by blast
  moreover have "DISPLAY_HEIGHT * (DISPLAY_WIDTH * 2 + LINE_PADDING) = 327680"
    by (simp add: DISPLAY_WIDTH_def DISPLAY_HEIGHT_def LINE_PADDING_def)
  ultimately show "\<exists>fb. prepare_image lib image_path = Inr fb
               \<and> length fb = DISPLAY_HEIGHT * (DISPLAY_WIDTH * 2 + LINE_PADDING)
               \<and> length fb = 327680"
    by simp
next
  assume "Image_open lib image_path = Inr img0"
  from prepare_image_result[OF this]
  show "prepare_image lib image_path =
              Inr (concat (map (\<lambda>y. concat (map (\<lambda>x. rgb565_le
                                          (resample lib img0 (960, 160) (x, y))) [0..<960])
                                     @ replicate 128 0) [0..<160]))"
    by (simp only: DISPLAY_WIDTH_def DISPLAY_HEIGHT_def LINE_PADDING_def)
qed

theorem build_framebuffer_layout_witness:
  "(2::nat) \<le> fst (img_size \<lparr>img_size = (2, 2), pixel = (\<lambda>xy. (255, 0, 0))\<rparr>)
   \<and> (2::nat) \<le> snd (img_size \<lparr>img_size = (2, 2), pixel = (\<lambda>xy. (255, 0, 0))\<rparr>)
   \<and> build_framebuffer \<lparr>img_size = (2, 2), pixel = (\<lambda>xy. (255, 0, 0))\<rparr> 2 2 1
       = Inr [0x00, 0xF8, 0x00, 0xF8, 0x00, 0x00, 0xF8, 0x00, 0xF8, 0x00]
   \<and> Image_open \<lparr>Image_open = (\<lambda>p. Inr \<lparr>img_size = (2, 2), pixel = (\<lambda>xy. (255, 0, 0))\<rparr>),
                   resample = (\<lambda>img sz xy. pixel img (0, 0))\<rparr> ''red.png''
       = Inr \<lparr>img_size = (2, 2), pixel = (\<lambda>xy. (255, 0, 0))\<rparr>
   \<and> (\<exists>fb. prepare_image \<lparr>Image_open = (\<lambda>p. Inr \<lparr>img_size = (2, 2), pixel = (\<lambda>xy. (255, 0, 0))\<rparr>),
                   resample = (\<lambda>img sz xy. pixel img (0, 0))\<rparr> ''red.png'' = Inr fb
          \<and> length fb = 327680)
   \<and> prepare_image \<lparr>Image_open = (\<lambda>p. Inr \<lparr>img_size = (2, 2), pixel = (\<lambda>xy. (255, 0, 0))\<rparr>),
                   resample = (\<lambda>img sz xy. pixel img (0, 0))\<rparr> ''red.png''
       = Inr (concat (replicate 160 (concat (replicate 960 [0x00, 0xF8]) @ replicate 128 0)))"
proof -
  let ?img = "\<lparr>img_size = (2, 2), pixel = (\<lambda>xy. (255 :: int, 0 :: int, 0 :: int))\<rparr>"
  let ?lib = "\<lparr>Image_open = (\<lambda>p. Inr ?img), resample = (\<lambda>img sz xy. pixel img (0, 0))\<rparr>"
  have h1: "(2::nat) \<le> fst (img_size ?img)" by simp
  have h2: "(2::nat) \<le> snd (img_size ?img)" by simp
  have h3: "Image_open ?lib ''red.png'' = Inr ?img" by simp
  note T = build_framebuffer_layout[OF h1 h2, of 1 0 0 0 ?lib "''red.png''" ?img]
  have red: "rgb565_le (255, 0, 0) = [0x00, 0xF8]"
    by (simp add: rgb565_le_def rgb565_arith)
  have u: "[0..<2] = [0, Suc 0]" by (simp add: numeral_2_eq_2)
  from T[THEN conjunct1] have a: "build_framebuffer ?img 2 2 1
       = Inr [0x00, 0xF8, 0x00, 0xF8, 0x00, 0x00, 0xF8, 0x00, 0xF8, 0x00]"
    by (simp add: red u)
  from T h3 have b: "\<exists>fb. prepare_image ?lib ''red.png'' = Inr fb \<and> length fb = 327680"
    by blast
  from T h3 have "prepare_image ?lib ''red.png'' =
      Inr (concat (map (\<lambda>y. concat (map (\<lambda>x. rgb565_le
                                  (resample ?lib ?img (960, 160) (x, y))) [0..<960])
                             @ replicate 128 0) [0..<160]))"
    by blast
  then have c: "prepare_image ?lib ''red.png''
       = Inr (concat (replicate 160 (concat (replicate 960 [0x00, 0xF8]) @ replicate 128 0)))"
    by (simp add: red map_replicate_const)
  show ?thesis using h1 h2 a h3 b c by (intro conjI)
qed

text \<open>
  C8, as the code has it. \<open>prepare_image\<close> accepts a source image of any size: it
  resizes whatever \<^verbatim>\<open>Image.open\<close> returns to \<open>960 \<times> 160\<close> and returns a
  framebuffer of 327,680 bytes. There is no geometry check and no geometry error, and
  \<open>display_image\<close> goes on to send the framebuffer, so with a device handle the header
  is written to the transport. The failure that does keep the transport untouched is
  \<^verbatim>\<open>Image.open\<close> raising: then \<open>prepare_image\<close> and \<open>display_image\<close> raise the
  same exception and the bus is as before. The counterexample is a \<open>1 \<times> 1\<close> source
  image: the framebuffer is built, and \<open>display_image\<close> makes 21 transport writes.
\<close>

theorem prepare_image_any_geometry:
  assumes "Image_open lib image_path = Inr img0"
  shows "(\<exists>fb. prepare_image lib image_path = Inr fb \<and> length fb = 327680
            \<and> display_image lib self bus image_path = send_frame self bus fb)
       \<and> (device self \<noteq> None \<longrightarrow>
            take (Suc (length (calls bus))) (calls (snd (display_image lib self bus image_path)))
              = calls bus @ [(1, FRAME_HEADER)])
       \<and> (Image_open lib other_path = Inl e \<longrightarrow>
            prepare_image lib other_path = Inl e
            \<and> display_image lib self bus other_path = (Inl e, bus))"
proof (intro conjI impI)
  from prepare_image_total[OF assms] obtain fb where
    fb: "prepare_image lib image_path = Inr fb" "length fb = 327680" by blast
  have d: "display_image lib self bus image_path = send_frame self bus fb"
    by (simp add: display_image_def fb(1))
  show "\<exists>fb. prepare_image lib image_path = Inr fb \<and> length fb = 327680
            \<and> display_image lib self bus image_path = send_frame self bus fb"
    using fb d by blast
  assume "device self \<noteq> None"
  from send_frame_header_first[OF this, of bus fb]
  show "take (Suc (length (calls bus))) (calls (snd (display_image lib self bus image_path)))
              = calls bus @ [(1, FRAME_HEADER)]"
    by (simp only: d)
next
  assume "Image_open lib other_path = Inl e"
  then show "prepare_image lib other_path = Inl e"
    by (simp add: prepare_image_def)
next
  assume "Image_open lib other_path = Inl e"
  then show "display_image lib self bus other_path = (Inl e, bus)"
    by (simp add: display_image_def prepare_image_def)
qed

theorem prepare_image_any_geometry_witness:
  "Image_open \<lparr>Image_open = (\<lambda>p. if p = ''tiny.png''
                                then Inr \<lparr>img_size = (1, 1), pixel = (\<lambda>xy. (255, 0, 0))\<rparr>
                                else Inl (IOError ''No such file'')),
               resample = (\<lambda>img sz xy. pixel img (0, 0))\<rparr> ''tiny.png''
     = Inr \<lparr>img_size = (1, 1), pixel = (\<lambda>xy. (255, 0, 0))\<rparr>
   \<and> (\<exists>fb. prepare_image \<lparr>Image_open = (\<lambda>p. if p = ''tiny.png''
                                then Inr \<lparr>img_size = (1, 1), pixel = (\<lambda>xy. (255, 0, 0))\<rparr>
                                else Inl (IOError ''No such file'')),
               resample = (\<lambda>img sz xy. pixel img (0, 0))\<rparr> ''tiny.png'' = Inr fb
          \<and> length fb = 327680)
   \<and> Image_open \<lparr>Image_open = (\<lambda>p. if p = ''tiny.png''
                                then Inr \<lparr>img_size = (1, 1), pixel = (\<lambda>xy. (255, 0, 0))\<rparr>
                                else Inl (IOError ''No such file'')),
               resample = (\<lambda>img sz xy. pixel img (0, 0))\<rparr> ''none.png''
     = Inl (IOError ''No such file'')
   \<and> display_image \<lparr>Image_open = (\<lambda>p. if p = ''tiny.png''
                                then Inr \<lparr>img_size = (1, 1), pixel = (\<lambda>xy. (255, 0, 0))\<rparr>
                                else Inl (IOError ''No such file'')),
               resample = (\<lambda>img sz xy. pixel img (0, 0))\<rparr>
        \<lparr>device = Some (), debug = False\<rparr>
        \<lparr>attached = True, config_failure = None, respond = (\<lambda>log. None), calls = []\<rparr>
        ''none.png''
     = (Inl (IOError ''No such file''),
        \<lparr>attached = True, config_failure = None, respond = (\<lambda>log. None), calls = []\<rparr>)"
proof -
  let ?img = "\<lparr>img_size = (1, 1), pixel = (\<lambda>xy. (255 :: int, 0 :: int, 0 :: int))\<rparr>"
  let ?lib = "\<lparr>Image_open = (\<lambda>p. if p = ''tiny.png'' then Inr ?img
                                else Inl (IOError ''No such file'')),
               resample = (\<lambda>img sz xy. pixel img (0, 0))\<rparr>"
  let ?D = "\<lparr>device = Some (), debug = False\<rparr>"
  let ?B = "\<lparr>attached = True, config_failure = None, respond = (\<lambda>log. None), calls = []\<rparr>"
  have h1: "Image_open ?lib ''tiny.png'' = Inr ?img" by simp
  have h2: "Image_open ?lib ''none.png'' = Inl (IOError ''No such file'')" by simp
  note T = prepare_image_any_geometry[OF h1, of ?D ?B "''none.png''" "IOError ''No such file''"]
  from T have a: "\<exists>fb. prepare_image ?lib ''tiny.png'' = Inr fb \<and> length fb = 327680"
    by blast
  from T h2 have b: "display_image ?lib ?D ?B ''none.png'' = (Inl (IOError ''No such file''), ?B)"
    by blast
  show ?thesis using h1 a h2 b by (intro conjI)
qed

theorem invalid_geometry_counterexample:
  "map_sum id length
     (prepare_image \<lparr>Image_open = (\<lambda>p. Inr \<lparr>img_size = (1, 1), pixel = (\<lambda>xy. (255, 0, 0))\<rparr>),
                     resample = (\<lambda>img sz xy. pixel img (0, 0))\<rparr> ''tiny.png'')
     = Inr 327680
   \<and> fst (display_image \<lparr>Image_open = (\<lambda>p. Inr \<lparr>img_size = (1, 1), pixel = (\<lambda>xy. (255, 0, 0))\<rparr>),
                     resample = (\<lambda>img sz xy. pixel img (0, 0))\<rparr>
        \<lparr>device = Some (), debug = False\<rparr>
        \<lparr>attached = True, config_failure = None, respond = (\<lambda>log. None), calls = []\<rparr>
        ''tiny.png'') = Inr ()
   \<and> length (calls (snd (display_image
        \<lparr>Image_open = (\<lambda>p. Inr \<lparr>img_size = (1, 1), pixel = (\<lambda>xy. (255, 0, 0))\<rparr>),
                     resample = (\<lambda>img sz xy. pixel img (0, 0))\<rparr>
        \<lparr>device = Some (), debug = False\<rparr>
        \<lparr>attached = True, config_failure = None, respond = (\<lambda>log. None), calls = []\<rparr>
        ''tiny.png''))) = 21"
proof -
  let ?img = "\<lparr>img_size = (1, 1), pixel = (\<lambda>xy. (255 :: int, 0 :: int, 0 :: int))\<rparr>"
  let ?lib = "\<lparr>Image_open = (\<lambda>p. Inr ?img), resample = (\<lambda>img sz xy. pixel img (0, 0))\<rparr>"
  let ?D = "\<lparr>device = Some (), debug = False\<rparr>"
  let ?B = "\<lparr>attached = True, config_failure = None, respond = (\<lambda>log. None), calls = []\<rparr>"
  have h1: "Image_open ?lib ''tiny.png'' = Inr ?img" by simp
  from prepare_image_total[OF h1] obtain fb where
    fb: "prepare_image ?lib ''tiny.png'' = Inr fb" "length fb = 327680" by blast
  have d: "display_image ?lib ?D ?B ''tiny.png'' = send_frame ?D ?B fb"
    by (simp only: display_image_def fb(1) sum.case)
  have dev: "device ?D \<noteq> None" by simp
  have ok: "fst (send_frame ?D ?B fb) = Inr ()"
    by (rule send_frame_accepts) simp_all
  have n: "length (calls (snd (send_frame ?D ?B fb))) = 21"
    using send_frame_327680(1)[OF dev ok fb(2)] by simp
  have a: "map_sum id length (prepare_image ?lib ''tiny.png'') = Inr 327680"
    by (simp only: fb map_sum.simps)
  have ok': "fst (display_image ?lib ?D ?B ''tiny.png'') = Inr ()"
    using ok by (simp only: d)
  have n': "length (calls (snd (display_image ?lib ?D ?B ''tiny.png''))) = 21"
    using n by (simp only: d)
  show ?thesis using a ok' n' by (intro conjI)
qed




end
